theory Spec2Isabelle
  imports Complex_Main "HOL-Library.Multiset"
begin

section \<open>Schema rows (shared/schema.ts)\<close>

text \<open>
  The row types of \<^verbatim>\<open>shared/schema.ts\<close>. Several tables have columns of the same name
  (\<^verbatim>\<open>id\<close>, \<^verbatim>\<open>slug\<close>), so every field carries its table as a prefix. Ids are JavaScript
  numbers that only ever hold integers; timestamps are the millisecond count of a
  valid \<^verbatim>\<open>Date\<close> (an invalid \<^verbatim>\<open>Date\<close> is not represented). A row is its fields: the
  order of the keys of the JavaScript object and its identity are not represented.

  \<^verbatim>\<open>post_publishedAt\<close> is an \<open>option\<close> although the column is \<^verbatim>\<open>notNull\<close>: the in-memory
  store copies an insert row that leaves \<^verbatim>\<open>publishedAt\<close> out as it is, and the stored
  object then has no such property (\<open>None\<close> is JavaScript's \<^verbatim>\<open>undefined\<close>).

  The two nullable columns of a post, \<^verbatim>\<open>coverImage\<close> and \<^verbatim>\<open>authorId\<close>, have three states
  in a JavaScript object, and a caller can tell them apart: the key is missing
  (\<open>Undefined\<close>), it is \<^verbatim>\<open>null\<close> (\<open>Null\<close>), or it has a value. A row that comes out of
  the database never has the first state; a row of the in-memory store has it when the
  insert row left the key out.
\<close>

datatype 'a nullable = Undefined | Null | Val 'a

record User =
  user_id :: int
  user_username :: string
  user_password :: string

record InsertUser =
  iu_username :: string
  iu_password :: string

record Post =
  post_id :: int
  post_slug :: string
  post_title :: string
  post_excerpt :: string
  post_content :: string
  post_coverImage :: "string nullable"
  post_publishedAt :: "int option"
  post_readingTime :: string
  post_authorId :: "int nullable"

record InsertPost =
  ip_slug :: string
  ip_title :: string
  ip_excerpt :: string
  ip_content :: string
  ip_coverImage :: "string nullable"
  ip_publishedAt :: "int option"
  ip_readingTime :: string
  ip_authorId :: "int nullable"

text \<open>
  \<^verbatim>\<open>Partial<InsertPost>\<close>: \<open>None\<close> is a key that is left out, \<open>Some v\<close> a key that is
  set to \<open>v\<close> (for the two nullable columns \<open>v\<close> may be \<^verbatim>\<open>null\<close>, the inner \<open>None\<close>).
  A key that is present but set to \<^verbatim>\<open>undefined\<close> is not represented.
\<close>

record PostUpdates =
  pu_slug :: "string option"
  pu_title :: "string option"
  pu_excerpt :: "string option"
  pu_content :: "string option"
  pu_coverImage :: "string option option"
  pu_publishedAt :: "int option"
  pu_readingTime :: "string option"
  pu_authorId :: "int option option"

record Tag =
  tag_id :: int
  tag_name :: string
  tag_slug :: string

record InsertTag =
  it_name :: string
  it_slug :: string

record PostTag =
  pt_id :: int
  pt_postId :: int
  pt_tagId :: int

record InsertPostTag =
  ipt_postId :: int
  ipt_tagId :: int

record Subscriber =
  sub_id :: int
  sub_email :: string
  sub_createdAt :: int

record InsertSubscriber =
  is_email :: string

record PaginatedPosts =
  pg_posts :: "Post list"
  pg_total :: nat

section \<open>JavaScript built-ins used by the storage layer\<close>

subsection \<open>\<^verbatim>\<open>Map<number, V>\<close>\<close>

text \<open>
  A JavaScript \<^verbatim>\<open>Map\<close> iterates in insertion order, \<^verbatim>\<open>set\<close> on a key that is present
  replaces the value where it stands, and \<^verbatim>\<open>delete\<close> answers whether the key was there.
  It is a list of entries in insertion order.
\<close>

type_synonym 'v jsmap = "(int \<times> 'v) list"

definition Map_get :: "'v jsmap \<Rightarrow> int \<Rightarrow> 'v option" where
  "Map_get m k = map_of m k"

fun Map_set :: "'v jsmap \<Rightarrow> int \<Rightarrow> 'v \<Rightarrow> 'v jsmap" where
  "Map_set [] k v = [(k, v)]"
| "Map_set ((k', v') # m) k v =
     (if k' = k then (k, v) # m else (k', v') # Map_set m k v)"

definition Map_delete :: "'v jsmap \<Rightarrow> int \<Rightarrow> bool \<times> 'v jsmap" where
  "Map_delete m k = (k \<in> set (map fst m), filter (\<lambda>e. fst e \<noteq> k) m)"

definition Map_values :: "'v jsmap \<Rightarrow> 'v list" where
  "Map_values m = map snd m"

subsection \<open>\<^verbatim>\<open>Array.prototype.sort\<close> and \<^verbatim>\<open>slice\<close>\<close>

text \<open>
  A comparator returns a number; \<open>None\<close> is \<^verbatim>\<open>NaN\<close>, which \<^verbatim>\<open>sort\<close> reads as \<open>0\<close>.
\<close>

definition SortCompare :: "('a \<Rightarrow> 'a \<Rightarrow> int option) \<Rightarrow> 'a \<Rightarrow> 'a \<Rightarrow> int" where
  "SortCompare cmp x y = (case cmp x y of None \<Rightarrow> 0 | Some v \<Rightarrow> v)"

text \<open>
  \<^verbatim>\<open>sort\<close> is stable. For a consistent comparator its result is the one stable
  arrangement, which insertion from the right computes.
\<close>

fun sort_insert :: "('a \<Rightarrow> 'a \<Rightarrow> int option) \<Rightarrow> 'a \<Rightarrow> 'a list \<Rightarrow> 'a list" where
  "sort_insert cmp x [] = [x]"
| "sort_insert cmp x (y # ys) =
     (if SortCompare cmp x y \<le> 0 then x # y # ys else y # sort_insert cmp x ys)"

definition stable_arrangement :: "('a \<Rightarrow> 'a \<Rightarrow> int option) \<Rightarrow> 'a list \<Rightarrow> 'a list" where
  "stable_arrangement cmp xs = foldr (sort_insert cmp) xs []"

text \<open>
  For an inconsistent comparator (one that returns \<^verbatim>\<open>NaN\<close> for some pairs only)
  ECMAScript leaves the result to the engine. The sources run on Node.js, whose engine
  is V8. V8 sorts an array of fewer than 64 elements in two steps, written out here
  as V8 has them: \<^verbatim>\<open>CountAndMakeRun\<close> takes the longest run at the start of the array
  (a run that never descends, or a run that strictly descends and is then reversed), and
  \<^verbatim>\<open>BinaryInsertionSort\<close> puts every further element into the sorted part at the place
  that a binary search finds. The first component below is the run, the second the
  elements after it.
\<close>

fun extend_run ::
  "('a \<Rightarrow> 'a \<Rightarrow> int option) \<Rightarrow> bool \<Rightarrow> 'a \<Rightarrow> 'a list \<Rightarrow> 'a list \<times> 'a list" where
  "extend_run cmp isDescending previousElement [] = ([], [])"
| "extend_run cmp isDescending previousElement (currentElement # rest) =
     (let order = SortCompare cmp currentElement previousElement
      in if (if isDescending then 0 \<le> order else order < 0)
         then ([], currentElement # rest)
         else (let further = extend_run cmp isDescending currentElement rest
               in (currentElement # fst further, snd further)))"

definition CountAndMakeRun ::
  "('a \<Rightarrow> 'a \<Rightarrow> int option) \<Rightarrow> 'a list \<Rightarrow> 'a list \<times> 'a list" where
  "CountAndMakeRun cmp workArray =
     (case workArray of
        [] \<Rightarrow> ([], [])
      | elementHigh # tail \<Rightarrow>
          (case tail of
             [] \<Rightarrow> ([elementHigh], [])
           | elementLow # rest \<Rightarrow>
               (let isDescending = (SortCompare cmp elementLow elementHigh < 0);
                    further = extend_run cmp isDescending elementLow rest;
                    run = elementHigh # elementLow # fst further
                in (if isDescending then rev run else run, snd further))))"

text \<open>
  The binary search of \<^verbatim>\<open>BinaryInsertionSort\<close>: the place of \<open>pivot\<close> between \<open>left\<close> and
  \<open>right\<close> of the sorted part.
\<close>

function binary_search ::
  "('a \<Rightarrow> 'a \<Rightarrow> int option) \<Rightarrow> 'a \<Rightarrow> 'a list \<Rightarrow> nat \<Rightarrow> nat \<Rightarrow> nat" where
  "binary_search cmp pivot workArray left right =
     (if left < right
      then (let mid = left + (right - left) div 2
            in if SortCompare cmp pivot (workArray ! mid) < 0
               then binary_search cmp pivot workArray left mid
               else binary_search cmp pivot workArray (mid + 1) right)
      else left)"
  by pat_completeness auto

termination
  by (relation "measure (\<lambda>(cmp, pivot, workArray, left, right). right - left)") auto

declare binary_search.simps [simp del]

definition insert_pivot :: "('a \<Rightarrow> 'a \<Rightarrow> int option) \<Rightarrow> 'a list \<Rightarrow> 'a \<Rightarrow> 'a list" where
  "insert_pivot cmp sorted_part pivot =
     (let left = binary_search cmp pivot sorted_part 0 (length sorted_part)
      in take left sorted_part @ pivot # drop left sorted_part)"

definition BinaryInsertionSort ::
  "('a \<Rightarrow> 'a \<Rightarrow> int option) \<Rightarrow> 'a list \<Rightarrow> 'a list \<Rightarrow> 'a list" where
  "BinaryInsertionSort cmp run others = foldl (insert_pivot cmp) run others"

text \<open>
  An array of 64 elements or more V8 cuts into runs of at least 32 elements, sorts each
  as above and merges them; the merge is not written out. For such an array the result
  is given as the stable arrangement, which is what V8 returns when the comparator is
  consistent.
\<close>

definition Array_sort :: "('a \<Rightarrow> 'a \<Rightarrow> int option) \<Rightarrow> 'a list \<Rightarrow> 'a list" where
  "Array_sort cmp xs =
     (if length xs < 64
      then (let found = CountAndMakeRun cmp xs
            in BinaryInsertionSort cmp (fst found) (snd found))
      else stable_arrangement cmp xs)"

text \<open>
  \<^verbatim>\<open>xs.slice(start, stop)\<close>: a negative index counts from the end, both are clamped
  to the array, and an empty range gives the empty array.
\<close>

definition Array_slice :: "'a list \<Rightarrow> int \<Rightarrow> int \<Rightarrow> 'a list" where
  "Array_slice xs start stop =
     (let len = int (length xs);
          k = (if start < 0 then max (len + start) 0 else min start len);
          final = (if stop < 0 then max (len + stop) 0 else min stop len)
      in take (nat (final - k)) (drop (nat k) xs))"

text \<open>
  \<^verbatim>\<open>new Date(x).getTime()\<close> of a stored timestamp: the millisecond count, or \<^verbatim>\<open>NaN\<close>
  when the property is missing.
\<close>

definition getTime :: "int option \<Rightarrow> int option" where
  "getTime d = d"

definition js_minus :: "int option \<Rightarrow> int option \<Rightarrow> int option" where
  "js_minus a b = (case (a, b) of (Some x, Some y) \<Rightarrow> Some (x - y) | _ \<Rightarrow> None)"

text \<open>
  The comparator of every post listing:
  \<^verbatim>\<open>(a, b) => new Date(b.publishedAt).getTime() - new Date(a.publishedAt).getTime()\<close>.
\<close>

definition byPublishedAtDesc :: "Post \<Rightarrow> Post \<Rightarrow> int option" where
  "byPublishedAtDesc a b =
     js_minus (getTime (post_publishedAt b)) (getTime (post_publishedAt a))"

section \<open>The in-memory store (class MemStorage of server/storage.ts)\<close>

text \<open>
  The five maps and the five id counters of the class. Every method takes the store and,
  when it writes, returns the store it leaves behind. No method of this class throws.
\<close>

record MemStorage =
  users :: "User jsmap"
  posts :: "Post jsmap"
  tags :: "Tag jsmap"
  postTags :: "PostTag jsmap"
  subscribers :: "Subscriber jsmap"
  currentUserId :: int
  currentPostId :: int
  currentTagId :: int
  currentPostTagId :: int
  currentSubscriberId :: int

text \<open>The constructor, before it seeds: empty maps, counters at 1.\<close>

definition MemStorage_new :: MemStorage where
  "MemStorage_new =
     \<lparr>users = [], posts = [], tags = [], postTags = [], subscribers = [],
      currentUserId = 1, currentPostId = 1, currentTagId = 1, currentPostTagId = 1,
      currentSubscriberId = 1\<rparr>"

subsection \<open>User operations\<close>

definition Mem_getUser :: "MemStorage \<Rightarrow> int \<Rightarrow> User option" where
  "Mem_getUser s ident = Map_get (users s) ident"

definition Mem_getUserByUsername :: "MemStorage \<Rightarrow> string \<Rightarrow> User option" where
  "Mem_getUserByUsername s username =
     find (\<lambda>user. user_username user = username) (Map_values (users s))"

definition Mem_createUser :: "MemStorage \<Rightarrow> InsertUser \<Rightarrow> User \<times> MemStorage" where
  "Mem_createUser s insertUser =
     (let ident = currentUserId s;
          user = \<lparr>user_id = ident, user_username = iu_username insertUser,
                  user_password = iu_password insertUser\<rparr>
      in (user, s\<lparr>users := Map_set (users s) ident user, currentUserId := ident + 1\<rparr>))"

subsection \<open>Post operations\<close>

definition Mem_getAllPosts :: "MemStorage \<Rightarrow> Post list" where
  "Mem_getAllPosts s = Array_sort byPublishedAtDesc (Map_values (posts s))"

definition Mem_getPostById :: "MemStorage \<Rightarrow> int \<Rightarrow> Post option" where
  "Mem_getPostById s ident = Map_get (posts s) ident"

definition Mem_getPostBySlug :: "MemStorage \<Rightarrow> string \<Rightarrow> Post option" where
  "Mem_getPostBySlug s slug = find (\<lambda>post. post_slug post = slug) (Map_values (posts s))"

text \<open>\<^verbatim>\<open>{ ...insertPost, id }\<close>: every key of the insert row, and the new id.\<close>

definition Mem_createPost :: "MemStorage \<Rightarrow> InsertPost \<Rightarrow> Post \<times> MemStorage" where
  "Mem_createPost s insertPost =
     (let ident = currentPostId s;
          post = \<lparr>post_id = ident, post_slug = ip_slug insertPost,
                  post_title = ip_title insertPost, post_excerpt = ip_excerpt insertPost,
                  post_content = ip_content insertPost,
                  post_coverImage = ip_coverImage insertPost,
                  post_publishedAt = ip_publishedAt insertPost,
                  post_readingTime = ip_readingTime insertPost,
                  post_authorId = ip_authorId insertPost\<rparr>
      in (post, s\<lparr>posts := Map_set (posts s) ident post, currentPostId := ident + 1\<rparr>))"

text \<open>\<^verbatim>\<open>{ ...post, ...postUpdates }\<close>: a key of the update wins over the stored one.\<close>

definition or_else :: "'a option \<Rightarrow> 'a \<Rightarrow> 'a" where
  "or_else u old = (case u of None \<Rightarrow> old | Some v \<Rightarrow> v)"

definition or_null :: "'a option \<Rightarrow> 'a nullable" where
  "or_null v = (case v of None \<Rightarrow> Null | Some x \<Rightarrow> Val x)"

definition spread_updates :: "Post \<Rightarrow> PostUpdates \<Rightarrow> Post" where
  "spread_updates post u =
     \<lparr>post_id = post_id post,
      post_slug = or_else (pu_slug u) (post_slug post),
      post_title = or_else (pu_title u) (post_title post),
      post_excerpt = or_else (pu_excerpt u) (post_excerpt post),
      post_content = or_else (pu_content u) (post_content post),
      post_coverImage = or_else (map_option or_null (pu_coverImage u)) (post_coverImage post),
      post_publishedAt =
        (case pu_publishedAt u of None \<Rightarrow> post_publishedAt post | Some t \<Rightarrow> Some t),
      post_readingTime = or_else (pu_readingTime u) (post_readingTime post),
      post_authorId = or_else (map_option or_null (pu_authorId u)) (post_authorId post)\<rparr>"

definition Mem_updatePost ::
  "MemStorage \<Rightarrow> int \<Rightarrow> PostUpdates \<Rightarrow> Post option \<times> MemStorage" where
  "Mem_updatePost s ident postUpdates =
     (case Map_get (posts s) ident of
        None \<Rightarrow> (None, s)
      | Some post \<Rightarrow>
          (let updatedPost = spread_updates post postUpdates
           in (Some updatedPost, s\<lparr>posts := Map_set (posts s) ident updatedPost\<rparr>)))"

definition Mem_deletePost :: "MemStorage \<Rightarrow> int \<Rightarrow> bool \<times> MemStorage" where
  "Mem_deletePost s ident =
     (let (was_there, m) = Map_delete (posts s) ident in (was_there, s\<lparr>posts := m\<rparr>))"

definition Mem_getFeaturedPost :: "MemStorage \<Rightarrow> Post option" where
  "Mem_getFeaturedPost s =
     (let allPosts = Mem_getAllPosts s
      in if 0 < length allPosts then Some (allPosts ! 0) else None)"

definition Mem_getPaginatedPosts :: "MemStorage \<Rightarrow> int \<Rightarrow> int \<Rightarrow> PaginatedPosts" where
  "Mem_getPaginatedPosts s page limit =
     (let allPosts = Mem_getAllPosts s;
          startIndex = (page - 1) * limit;
          endIndex = page * limit
      in \<lparr>pg_posts = Array_slice allPosts startIndex endIndex,
          pg_total = length allPosts\<rparr>)"

subsection \<open>Tag operations\<close>

definition Mem_getAllTags :: "MemStorage \<Rightarrow> Tag list" where
  "Mem_getAllTags s = Map_values (tags s)"

definition Mem_getTagById :: "MemStorage \<Rightarrow> int \<Rightarrow> Tag option" where
  "Mem_getTagById s ident = Map_get (tags s) ident"

definition Mem_getTagBySlug :: "MemStorage \<Rightarrow> string \<Rightarrow> Tag option" where
  "Mem_getTagBySlug s slug = find (\<lambda>tag. tag_slug tag = slug) (Map_values (tags s))"

definition Mem_createTag :: "MemStorage \<Rightarrow> InsertTag \<Rightarrow> Tag \<times> MemStorage" where
  "Mem_createTag s insertTag =
     (let ident = currentTagId s;
          tag = \<lparr>tag_id = ident, tag_name = it_name insertTag, tag_slug = it_slug insertTag\<rparr>
      in (tag, s\<lparr>tags := Map_set (tags s) ident tag, currentTagId := ident + 1\<rparr>))"

subsection \<open>Post-tag operations\<close>

definition Mem_getPostsByTagId :: "MemStorage \<Rightarrow> int \<Rightarrow> Post list" where
  "Mem_getPostsByTagId s tagId =
     (let postTagEntries = filter (\<lambda>pt. pt_tagId pt = tagId) (Map_values (postTags s));
          postIds = map pt_postId postTagEntries
      in Array_sort byPublishedAtDesc
           (filter (\<lambda>post. post_id post \<in> set postIds) (Map_values (posts s))))"

definition Mem_getPostsByTagSlug :: "MemStorage \<Rightarrow> string \<Rightarrow> Post list" where
  "Mem_getPostsByTagSlug s tagSlug =
     (case Mem_getTagBySlug s tagSlug of
        None \<Rightarrow> []
      | Some tag \<Rightarrow> Mem_getPostsByTagId s (tag_id tag))"

definition Mem_getTagsByPostId :: "MemStorage \<Rightarrow> int \<Rightarrow> Tag list" where
  "Mem_getTagsByPostId s postId =
     (let postTagEntries = filter (\<lambda>pt. pt_postId pt = postId) (Map_values (postTags s));
          tagIds = map pt_tagId postTagEntries
      in filter (\<lambda>tag. tag_id tag \<in> set tagIds) (Map_values (tags s)))"

definition Mem_addTagToPost :: "MemStorage \<Rightarrow> InsertPostTag \<Rightarrow> PostTag \<times> MemStorage" where
  "Mem_addTagToPost s insertPostTag =
     (let ident = currentPostTagId s;
          postTag = \<lparr>pt_id = ident, pt_postId = ipt_postId insertPostTag,
                     pt_tagId = ipt_tagId insertPostTag\<rparr>
      in (postTag,
          s\<lparr>postTags := Map_set (postTags s) ident postTag, currentPostTagId := ident + 1\<rparr>))"

definition Mem_removeTagFromPost :: "MemStorage \<Rightarrow> int \<Rightarrow> int \<Rightarrow> bool \<times> MemStorage" where
  "Mem_removeTagFromPost s postId tagId =
     (case find (\<lambda>pt. pt_postId pt = postId \<and> pt_tagId pt = tagId)
             (Map_values (postTags s)) of
        None \<Rightarrow> (False, s)
      | Some postTagEntry \<Rightarrow>
          (let (was_there, m) = Map_delete (postTags s) (pt_id postTagEntry)
           in (was_there, s\<lparr>postTags := m\<rparr>)))"

subsection \<open>Subscriber operations\<close>

text \<open>\<^verbatim>\<open>new Date()\<close> reads the clock; the reading is the argument \<open>now\<close>.\<close>

definition Mem_createSubscriber ::
  "MemStorage \<Rightarrow> int \<Rightarrow> InsertSubscriber \<Rightarrow> Subscriber \<times> MemStorage" where
  "Mem_createSubscriber s now insertSubscriber =
     (let ident = currentSubscriberId s;
          subscriber = \<lparr>sub_id = ident, sub_email = is_email insertSubscriber,
                        sub_createdAt = now\<rparr>
      in (subscriber,
          s\<lparr>subscribers := Map_set (subscribers s) ident subscriber,
            currentSubscriberId := ident + 1\<rparr>))"

definition Mem_getSubscriberByEmail :: "MemStorage \<Rightarrow> string \<Rightarrow> Subscriber option" where
  "Mem_getSubscriberByEmail s email =
     find (\<lambda>sub. sub_email sub = email) (Map_values (subscribers s))"

definition Mem_getAllSubscribers :: "MemStorage \<Rightarrow> Subscriber list" where
  "Mem_getAllSubscribers s = Map_values (subscribers s)"

section \<open>The persistent store (class DatabaseStorage of server/storage.ts)\<close>

subsection \<open>The relational engine\<close>

text \<open>
  Modelled from the spec: the relational engine behind \<^verbatim>\<open>db\<close>. The module
  \<^verbatim>\<open>server/db.ts\<close> and the SQL server it connects to are not part of the sources; the
  spec describes a relational store with the tables of \<^verbatim>\<open>shared/schema.ts\<close>, that
  enforces their unique and foreign-key constraints and answers joins, \<^verbatim>\<open>ORDER BY\<close>,
  \<^verbatim>\<open>LIMIT\<close>/\<^verbatim>\<open>OFFSET\<close> and \<^verbatim>\<open>COUNT\<close>. A table is a list of its rows and a \<^verbatim>\<open>serial\<close>
  column draws from a sequence, which an insert that breaks a constraint has already
  advanced when it is rejected.

  SQL promises no row order without \<^verbatim>\<open>ORDER BY\<close> and none among rows of equal sort key,
  and the spec tells the reader not to assume one. The order is the engine's choice at the
  moment of the read. That choice is a ranking of the rows: a read hands its rows out by
  ascending rank, and for rows that differ every order is the arrangement by some ranking
  (lemma \<open>every_order_is_an_arrangement\<close>). The rankings in force are the field
  \<open>row_order\<close> of the database. They are not data: no write looks at them, and they may
  change before every call. The position of a row in the list of its table shows only
  through the rankings that rank two rows alike; \<open>table_order\<close> ranks all rows alike.
\<close>

record planner =
  users_rank :: "User \<Rightarrow> nat"
  posts_rank :: "Post \<Rightarrow> nat"
  tags_rank :: "Tag \<Rightarrow> nat"
  subscribers_rank :: "Subscriber \<Rightarrow> nat"
  posts_join_rank :: "Post \<times> PostTag \<Rightarrow> nat"
  tags_join_rank :: "Tag \<times> PostTag \<Rightarrow> nat"

definition table_order :: planner where
  "table_order =
     \<lparr>users_rank = (\<lambda>r. 0), posts_rank = (\<lambda>r. 0), tags_rank = (\<lambda>r. 0),
      subscribers_rank = (\<lambda>r. 0), posts_join_rank = (\<lambda>r. 0), tags_join_rank = (\<lambda>r. 0)\<rparr>"

definition arrange :: "('a \<Rightarrow> nat) \<Rightarrow> 'a list \<Rightarrow> 'a list" where
  "arrange rank rows = sort_key rank rows"

record Database =
  users_table :: "User list"
  posts_table :: "Post list"
  tags_table :: "Tag list"
  post_tags_table :: "PostTag list"
  subscribers_table :: "Subscriber list"
  users_id_seq :: int
  posts_id_seq :: int
  tags_id_seq :: int
  post_tags_id_seq :: int
  subscribers_id_seq :: int
  row_order :: planner

definition Database_empty :: Database where
  "Database_empty =
     \<lparr>users_table = [], posts_table = [], tags_table = [], post_tags_table = [],
      subscribers_table = [],
      users_id_seq = 1, posts_id_seq = 1, tags_id_seq = 1, post_tags_id_seq = 1,
      subscribers_id_seq = 1, row_order = table_order\<rparr>"

text \<open>What a rejected promise carries: the statement the engine refused.\<close>

datatype failure =
  UniqueViolation string
| ForeignKeyViolation string
| NoValuesToSet
| NegativeLimit
| NegativeOffset
| TimestampOutOfRange

text \<open>
  Modelled from the spec: a \<^verbatim>\<open>Date\<close> reaches the engine as its ISO text, which the engine
  reads for the years 1 to 9999 (from \<^verbatim>\<open>0001-01-01T00:00:00.000Z\<close> to
  \<^verbatim>\<open>9999-12-31T23:59:59.999Z\<close>) and stores to the millisecond; a statement that carries
  any other timestamp is refused before it runs.
\<close>

definition timestamp_ok :: "int \<Rightarrow> bool" where
  "timestamp_ok t = (- 62135596800000 \<le> t \<and> t \<le> 253402300799999)"

definition refused_timestamp :: "int option \<Rightarrow> bool" where
  "refused_timestamp supplied = (case supplied of None \<Rightarrow> False | Some t \<Rightarrow> \<not> timestamp_ok t)"

type_synonym 'a outcome = "failure + 'a"

text \<open>\<^verbatim>\<open>const [row] = await ...; return row || undefined\<close>\<close>

definition first_row :: "'a list \<Rightarrow> 'a option" where
  "first_row rows = (case rows of [] \<Rightarrow> None | row # _ \<Rightarrow> Some row)"

text \<open>
  \<^verbatim>\<open>ORDER BY c DESC\<close> on a nullable key: nulls first, then larger before smaller. Rows of
  equal key stay in the order in which the engine handed them to the sort.
\<close>

definition desc :: "('a \<Rightarrow> int option) \<Rightarrow> 'a \<Rightarrow> 'a \<Rightarrow> int option" where
  "desc col a b =
     (case (col a, col b) of
        (None, None) \<Rightarrow> Some 0
      | (None, Some y) \<Rightarrow> Some (- 1)
      | (Some x, None) \<Rightarrow> Some 1
      | (Some x, Some y) \<Rightarrow> Some (if y < x then - 1 else if x < y then 1 else 0))"

definition orderBy :: "('a \<Rightarrow> 'a \<Rightarrow> int option) \<Rightarrow> 'a list \<Rightarrow> 'a list" where
  "orderBy cmp rows = foldr (sort_insert cmp) rows []"

text \<open>The pairs of a join; every read of a join arranges them by the ranking in force.\<close>

definition innerJoin :: "'a list \<Rightarrow> 'b list \<Rightarrow> ('a \<Rightarrow> 'b \<Rightarrow> bool) \<Rightarrow> ('a \<times> 'b) list" where
  "innerJoin left right on =
     concat (map (\<lambda>a. map (\<lambda>b. (a, b)) (filter (on a) right)) left)"

text \<open>\<^verbatim>\<open>LIMIT n OFFSET k\<close>; the engine refuses a negative count.\<close>

definition limit_offset :: "int \<Rightarrow> int \<Rightarrow> 'a list \<Rightarrow> 'a list outcome" where
  "limit_offset n k rows =
     (if n < 0 then Inl NegativeLimit
      else if k < 0 then Inl NegativeOffset
      else Inr (take (nat n) (drop (nat k) rows)))"

subsection \<open>User operations\<close>

definition Db_getUser :: "Database \<Rightarrow> int \<Rightarrow> User option" where
  "Db_getUser d ident =
     first_row (arrange (users_rank (row_order d))
                  (filter (\<lambda>u. user_id u = ident) (users_table d)))"

definition Db_getUserByUsername :: "Database \<Rightarrow> string \<Rightarrow> User option" where
  "Db_getUserByUsername d username =
     first_row (arrange (users_rank (row_order d))
                  (filter (\<lambda>u. user_username u = username) (users_table d)))"

definition Db_createUser :: "Database \<Rightarrow> InsertUser \<Rightarrow> User outcome \<times> Database" where
  "Db_createUser d insertUser =
     (let ident = users_id_seq d;
          d' = d\<lparr>users_id_seq := ident + 1\<rparr>;
          user = \<lparr>user_id = ident, user_username = iu_username insertUser,
                  user_password = iu_password insertUser\<rparr>
      in if iu_username insertUser \<in> set (map user_username (users_table d))
         then (Inl (UniqueViolation ''users_username_unique''), d')
         else (Inr user, d'\<lparr>users_table := users_table d @ [user]\<rparr>))"

subsection \<open>Post operations\<close>

definition Db_getAllPosts :: "Database \<Rightarrow> Post list" where
  "Db_getAllPosts d =
     orderBy (desc post_publishedAt) (arrange (posts_rank (row_order d)) (posts_table d))"

definition Db_getPostById :: "Database \<Rightarrow> int \<Rightarrow> Post option" where
  "Db_getPostById d ident =
     first_row (arrange (posts_rank (row_order d))
                  (filter (\<lambda>p. post_id p = ident) (posts_table d)))"

definition Db_getPostBySlug :: "Database \<Rightarrow> string \<Rightarrow> Post option" where
  "Db_getPostBySlug d slug =
     first_row (arrange (posts_rank (row_order d))
                  (filter (\<lambda>p. post_slug p = slug) (posts_table d)))"

text \<open>
  \<^verbatim>\<open>author_id\<close> references \<^verbatim>\<open>users.id\<close>; a null reference is always allowed.
\<close>

definition author_known :: "Database \<Rightarrow> int nullable \<Rightarrow> bool" where
  "author_known d a =
     (case a of Val u \<Rightarrow> u \<in> set (map user_id (users_table d)) | _ \<Rightarrow> True)"

text \<open>A nullable column that the insert row leaves out is stored as \<^verbatim>\<open>NULL\<close>.\<close>

definition stored :: "'a nullable \<Rightarrow> 'a nullable" where
  "stored v = (case v of Undefined \<Rightarrow> Null | _ \<Rightarrow> v)"

text \<open>\<^verbatim>\<open>published_at\<close> is \<^verbatim>\<open>notNull().defaultNow()\<close>: a row that leaves it out gets the clock.\<close>

definition Db_createPost :: "Database \<Rightarrow> int \<Rightarrow> InsertPost \<Rightarrow> Post outcome \<times> Database" where
  "Db_createPost d now insertPost =
     (let ident = posts_id_seq d;
          d' = d\<lparr>posts_id_seq := ident + 1\<rparr>;
          post = \<lparr>post_id = ident, post_slug = ip_slug insertPost,
                  post_title = ip_title insertPost, post_excerpt = ip_excerpt insertPost,
                  post_content = ip_content insertPost,
                  post_coverImage = stored (ip_coverImage insertPost),
                  post_publishedAt =
                    Some (case ip_publishedAt insertPost of None \<Rightarrow> now | Some t \<Rightarrow> t),
                  post_readingTime = ip_readingTime insertPost,
                  post_authorId = stored (ip_authorId insertPost)\<rparr>
      in if refused_timestamp (ip_publishedAt insertPost)
         then (Inl TimestampOutOfRange, d)
         else if ip_slug insertPost \<in> set (map post_slug (posts_table d))
         then (Inl (UniqueViolation ''posts_slug_unique''), d')
         else if author_known d (ip_authorId insertPost)
         then (Inr post, d'\<lparr>posts_table := posts_table d @ [post]\<rparr>)
         else (Inl (ForeignKeyViolation ''posts_author_id_users_id_fk''), d'))"

text \<open>
  An update that sets no column is refused before any row is looked at. The statement
  rewrites the row of that id and returns it. Where the row then stands among the rows
  of its table is the engine's business, as for every row: the rankings in force decide
  what a read shows.
\<close>

definition no_values :: "PostUpdates \<Rightarrow> bool" where
  "no_values u =
     (pu_slug u = None \<and> pu_title u = None \<and> pu_excerpt u = None \<and> pu_content u = None \<and>
      pu_coverImage u = None \<and> pu_publishedAt u = None \<and> pu_readingTime u = None \<and>
      pu_authorId u = None)"

definition Db_updatePost ::
  "Database \<Rightarrow> int \<Rightarrow> PostUpdates \<Rightarrow> Post option outcome \<times> Database" where
  "Db_updatePost d ident postUpdates =
     (if no_values postUpdates then (Inl NoValuesToSet, d)
      else if refused_timestamp (pu_publishedAt postUpdates) then (Inl TimestampOutOfRange, d)
      else
        (case first_row (filter (\<lambda>p. post_id p = ident) (posts_table d)) of
           None \<Rightarrow> (Inr None, d)
         | Some post \<Rightarrow>
             (let updatedPost = spread_updates post postUpdates
              in if post_slug updatedPost
                      \<in> set (map post_slug (filter (\<lambda>p. post_id p \<noteq> ident) (posts_table d)))
                 then (Inl (UniqueViolation ''posts_slug_unique''), d)
                 else if author_known d (post_authorId updatedPost)
                 then (Inr (Some updatedPost),
                       d\<lparr>posts_table :=
                           map (\<lambda>p. if post_id p = ident then updatedPost else p)
                             (posts_table d)\<rparr>)
                 else (Inl (ForeignKeyViolation ''posts_author_id_users_id_fk''), d))))"

text \<open>First the post-tag rows of the post, then the post itself.\<close>

definition Db_deletePost :: "Database \<Rightarrow> int \<Rightarrow> bool \<times> Database" where
  "Db_deletePost d ident =
     (let d1 = d\<lparr>post_tags_table := filter (\<lambda>pt. pt_postId pt \<noteq> ident) (post_tags_table d)\<rparr>;
          deleted = filter (\<lambda>p. post_id p = ident) (posts_table d1);
          d2 = d1\<lparr>posts_table := filter (\<lambda>p. post_id p \<noteq> ident) (posts_table d1)\<rparr>
      in (0 < length deleted, d2))"

definition Db_getFeaturedPost :: "Database \<Rightarrow> Post option" where
  "Db_getFeaturedPost d =
     first_row
       (take 1
          (orderBy (desc post_publishedAt)
             (arrange (posts_rank (row_order d)) (posts_table d))))"

definition Db_getPaginatedPosts :: "Database \<Rightarrow> int \<Rightarrow> int \<Rightarrow> PaginatedPosts outcome" where
  "Db_getPaginatedPosts d page limit =
     (let offset = (page - 1) * limit;
          total = length (posts_table d)
      in case limit_offset limit offset
                (orderBy (desc post_publishedAt)
                   (arrange (posts_rank (row_order d)) (posts_table d))) of
           Inl e \<Rightarrow> Inl e
         | Inr postsResult \<Rightarrow> Inr \<lparr>pg_posts = postsResult, pg_total = total\<rparr>)"

subsection \<open>Tag operations\<close>

definition Db_getAllTags :: "Database \<Rightarrow> Tag list" where
  "Db_getAllTags d = arrange (tags_rank (row_order d)) (tags_table d)"

definition Db_getTagById :: "Database \<Rightarrow> int \<Rightarrow> Tag option" where
  "Db_getTagById d ident =
     first_row (arrange (tags_rank (row_order d))
                  (filter (\<lambda>t. tag_id t = ident) (tags_table d)))"

definition Db_getTagBySlug :: "Database \<Rightarrow> string \<Rightarrow> Tag option" where
  "Db_getTagBySlug d slug =
     first_row (arrange (tags_rank (row_order d))
                  (filter (\<lambda>t. tag_slug t = slug) (tags_table d)))"

definition Db_createTag :: "Database \<Rightarrow> InsertTag \<Rightarrow> Tag outcome \<times> Database" where
  "Db_createTag d insertTag =
     (let ident = tags_id_seq d;
          d' = d\<lparr>tags_id_seq := ident + 1\<rparr>;
          tag = \<lparr>tag_id = ident, tag_name = it_name insertTag, tag_slug = it_slug insertTag\<rparr>
      in if it_name insertTag \<in> set (map tag_name (tags_table d))
         then (Inl (UniqueViolation ''tags_name_unique''), d')
         else if it_slug insertTag \<in> set (map tag_slug (tags_table d))
         then (Inl (UniqueViolation ''tags_slug_unique''), d')
         else (Inr tag, d'\<lparr>tags_table := tags_table d @ [tag]\<rparr>))"

subsection \<open>Post-tag operations\<close>

definition Db_getPostsByTagId :: "Database \<Rightarrow> int \<Rightarrow> Post list" where
  "Db_getPostsByTagId d tagId =
     map fst
       (orderBy (desc (\<lambda>r. post_publishedAt (fst r)))
          (arrange (posts_join_rank (row_order d))
             (filter (\<lambda>r. pt_tagId (snd r) = tagId)
                (innerJoin (posts_table d) (post_tags_table d)
                   (\<lambda>p pt. post_id p = pt_postId pt)))))"

definition Db_getPostsByTagSlug :: "Database \<Rightarrow> string \<Rightarrow> Post list" where
  "Db_getPostsByTagSlug d tagSlug =
     (case Db_getTagBySlug d tagSlug of
        None \<Rightarrow> []
      | Some tag \<Rightarrow> Db_getPostsByTagId d (tag_id tag))"

definition Db_getTagsByPostId :: "Database \<Rightarrow> int \<Rightarrow> Tag list" where
  "Db_getTagsByPostId d postId =
     map fst
       (arrange (tags_join_rank (row_order d))
          (filter (\<lambda>r. pt_postId (snd r) = postId)
             (innerJoin (tags_table d) (post_tags_table d)
                (\<lambda>t pt. tag_id t = pt_tagId pt))))"

definition Db_addTagToPost ::
  "Database \<Rightarrow> InsertPostTag \<Rightarrow> PostTag outcome \<times> Database" where
  "Db_addTagToPost d insertPostTag =
     (let ident = post_tags_id_seq d;
          d' = d\<lparr>post_tags_id_seq := ident + 1\<rparr>;
          postTag = \<lparr>pt_id = ident, pt_postId = ipt_postId insertPostTag,
                     pt_tagId = ipt_tagId insertPostTag\<rparr>
      in if ipt_postId insertPostTag \<in> set (map post_id (posts_table d))
         then if ipt_tagId insertPostTag \<in> set (map tag_id (tags_table d))
              then (Inr postTag, d'\<lparr>post_tags_table := post_tags_table d @ [postTag]\<rparr>)
              else (Inl (ForeignKeyViolation ''post_tags_tag_id_tags_id_fk''), d')
         else (Inl (ForeignKeyViolation ''post_tags_post_id_posts_id_fk''), d'))"

definition Db_removeTagFromPost :: "Database \<Rightarrow> int \<Rightarrow> int \<Rightarrow> bool \<times> Database" where
  "Db_removeTagFromPost d postId tagId =
     (let hit = (\<lambda>pt. pt_postId pt = postId \<and> pt_tagId pt = tagId);
          deleted = filter hit (post_tags_table d)
      in (0 < length deleted,
          d\<lparr>post_tags_table := filter (\<lambda>pt. \<not> hit pt) (post_tags_table d)\<rparr>))"

subsection \<open>Subscriber operations\<close>

definition Db_createSubscriber ::
  "Database \<Rightarrow> int \<Rightarrow> InsertSubscriber \<Rightarrow> Subscriber outcome \<times> Database" where
  "Db_createSubscriber d now insertSubscriber =
     (let ident = subscribers_id_seq d;
          d' = d\<lparr>subscribers_id_seq := ident + 1\<rparr>;
          subscriber = \<lparr>sub_id = ident, sub_email = is_email insertSubscriber,
                        sub_createdAt = now\<rparr>
      in if is_email insertSubscriber \<in> set (map sub_email (subscribers_table d))
         then (Inl (UniqueViolation ''subscribers_email_unique''), d')
         else (Inr subscriber, d'\<lparr>subscribers_table := subscribers_table d @ [subscriber]\<rparr>))"

definition Db_getSubscriberByEmail :: "Database \<Rightarrow> string \<Rightarrow> Subscriber option" where
  "Db_getSubscriberByEmail d email =
     first_row (arrange (subscribers_rank (row_order d))
                  (filter (\<lambda>s. sub_email s = email) (subscribers_table d)))"

definition Db_getAllSubscribers :: "Database \<Rightarrow> Subscriber list" where
  "Db_getAllSubscribers d = arrange (subscribers_rank (row_order d)) (subscribers_table d)"

section \<open>The interface (IStorage of server/storage.ts)\<close>

text \<open>
  One field per method of \<^verbatim>\<open>IStorage\<close>, over the state \<open>'s\<close> of the implementing class.
  A method that can reject its promise returns an \<open>outcome\<close>; a method that writes
  returns the state as well. The two methods that read the clock (to default a
  timestamp) take the reading as their second argument.
\<close>

record 's IStorage =
  getUser :: "'s \<Rightarrow> int \<Rightarrow> User option"
  getUserByUsername :: "'s \<Rightarrow> string \<Rightarrow> User option"
  createUser :: "'s \<Rightarrow> InsertUser \<Rightarrow> User outcome \<times> 's"
  getAllPosts :: "'s \<Rightarrow> Post list"
  getPostById :: "'s \<Rightarrow> int \<Rightarrow> Post option"
  getPostBySlug :: "'s \<Rightarrow> string \<Rightarrow> Post option"
  createPost :: "'s \<Rightarrow> int \<Rightarrow> InsertPost \<Rightarrow> Post outcome \<times> 's"
  updatePost :: "'s \<Rightarrow> int \<Rightarrow> PostUpdates \<Rightarrow> Post option outcome \<times> 's"
  deletePost :: "'s \<Rightarrow> int \<Rightarrow> bool outcome \<times> 's"
  getFeaturedPost :: "'s \<Rightarrow> Post option"
  getPaginatedPosts :: "'s \<Rightarrow> int \<Rightarrow> int \<Rightarrow> PaginatedPosts outcome"
  getAllTags :: "'s \<Rightarrow> Tag list"
  getTagById :: "'s \<Rightarrow> int \<Rightarrow> Tag option"
  getTagBySlug :: "'s \<Rightarrow> string \<Rightarrow> Tag option"
  createTag :: "'s \<Rightarrow> InsertTag \<Rightarrow> Tag outcome \<times> 's"
  getPostsByTagId :: "'s \<Rightarrow> int \<Rightarrow> Post list"
  getPostsByTagSlug :: "'s \<Rightarrow> string \<Rightarrow> Post list"
  getTagsByPostId :: "'s \<Rightarrow> int \<Rightarrow> Tag list"
  addTagToPost :: "'s \<Rightarrow> InsertPostTag \<Rightarrow> PostTag outcome \<times> 's"
  removeTagFromPost :: "'s \<Rightarrow> int \<Rightarrow> int \<Rightarrow> bool outcome \<times> 's"
  createSubscriber :: "'s \<Rightarrow> int \<Rightarrow> InsertSubscriber \<Rightarrow> Subscriber outcome \<times> 's"
  getSubscriberByEmail :: "'s \<Rightarrow> string \<Rightarrow> Subscriber option"
  getAllSubscribers :: "'s \<Rightarrow> Subscriber list"

text \<open>A method that cannot reject: its promise always resolves.\<close>

definition resolved :: "'a \<times> 's \<Rightarrow> 'a outcome \<times> 's" where
  "resolved r = (Inr (fst r), snd r)"

text \<open>\<^verbatim>\<open>class MemStorage implements IStorage\<close>\<close>

definition Mem_IStorage :: "MemStorage IStorage" where
  "Mem_IStorage =
     \<lparr>getUser = Mem_getUser,
      getUserByUsername = Mem_getUserByUsername,
      createUser = (\<lambda>s u. resolved (Mem_createUser s u)),
      getAllPosts = Mem_getAllPosts,
      getPostById = Mem_getPostById,
      getPostBySlug = Mem_getPostBySlug,
      createPost = (\<lambda>s now p. resolved (Mem_createPost s p)),
      updatePost = (\<lambda>s i u. resolved (Mem_updatePost s i u)),
      deletePost = (\<lambda>s i. resolved (Mem_deletePost s i)),
      getFeaturedPost = Mem_getFeaturedPost,
      getPaginatedPosts = (\<lambda>s page limit. Inr (Mem_getPaginatedPosts s page limit)),
      getAllTags = Mem_getAllTags,
      getTagById = Mem_getTagById,
      getTagBySlug = Mem_getTagBySlug,
      createTag = (\<lambda>s t. resolved (Mem_createTag s t)),
      getPostsByTagId = Mem_getPostsByTagId,
      getPostsByTagSlug = Mem_getPostsByTagSlug,
      getTagsByPostId = Mem_getTagsByPostId,
      addTagToPost = (\<lambda>s pt. resolved (Mem_addTagToPost s pt)),
      removeTagFromPost = (\<lambda>s p t. resolved (Mem_removeTagFromPost s p t)),
      createSubscriber = (\<lambda>s now e. resolved (Mem_createSubscriber s now e)),
      getSubscriberByEmail = Mem_getSubscriberByEmail,
      getAllSubscribers = Mem_getAllSubscribers\<rparr>"

text \<open>\<^verbatim>\<open>class DatabaseStorage implements IStorage\<close>; the exported \<^verbatim>\<open>storage\<close> is of this class.\<close>

definition Db_IStorage :: "Database IStorage" where
  "Db_IStorage =
     \<lparr>getUser = Db_getUser,
      getUserByUsername = Db_getUserByUsername,
      createUser = Db_createUser,
      getAllPosts = Db_getAllPosts,
      getPostById = Db_getPostById,
      getPostBySlug = Db_getPostBySlug,
      createPost = Db_createPost,
      updatePost = Db_updatePost,
      deletePost = (\<lambda>d i. resolved (Db_deletePost d i)),
      getFeaturedPost = Db_getFeaturedPost,
      getPaginatedPosts = Db_getPaginatedPosts,
      getAllTags = Db_getAllTags,
      getTagById = Db_getTagById,
      getTagBySlug = Db_getTagBySlug,
      createTag = Db_createTag,
      getPostsByTagId = Db_getPostsByTagId,
      getPostsByTagSlug = Db_getPostsByTagSlug,
      getTagsByPostId = Db_getTagsByPostId,
      addTagToPost = Db_addTagToPost,
      removeTagFromPost = (\<lambda>d p t. resolved (Db_removeTagFromPost d p t)),
      createSubscriber = Db_createSubscriber,
      getSubscriberByEmail = Db_getSubscriberByEmail,
      getAllSubscribers = Db_getAllSubscribers\<rparr>"

subsection \<open>Calls and their results, as a caller sees them\<close>

datatype op =
  GetUser int
| GetUserByUsername string
| CreateUser InsertUser
| GetAllPosts
| GetPostById int
| GetPostBySlug string
| CreatePost int InsertPost
| UpdatePost int PostUpdates
| DeletePost int
| GetFeaturedPost
| GetPaginatedPosts int int
| GetAllTags
| GetTagById int
| GetTagBySlug string
| CreateTag InsertTag
| GetPostsByTagId int
| GetPostsByTagSlug string
| GetTagsByPostId int
| AddTagToPost InsertPostTag
| RemoveTagFromPost int int
| CreateSubscriber int InsertSubscriber
| GetSubscriberByEmail string
| GetAllSubscribers

datatype result =
  UserOpt "User option"
| UserRow User
| PostList "Post list"
| PostOpt "Post option"
| PostRow Post
| Flag bool
| Page PaginatedPosts
| TagList "Tag list"
| TagOpt "Tag option"
| TagRow Tag
| PostTagRow PostTag
| SubscriberRow Subscriber
| SubscriberOpt "Subscriber option"
| SubscriberList "Subscriber list"
| Rejected failure

definition settle :: "('a \<Rightarrow> result) \<Rightarrow> 'a outcome \<times> 's \<Rightarrow> result \<times> 's" where
  "settle wrap r = (case fst r of Inl e \<Rightarrow> (Rejected e, snd r) | Inr v \<Rightarrow> (wrap v, snd r))"

fun perform :: "'s IStorage \<Rightarrow> 's \<Rightarrow> op \<Rightarrow> result \<times> 's" where
  "perform st s (GetUser i) = (UserOpt (getUser st s i), s)"
| "perform st s (GetUserByUsername n) = (UserOpt (getUserByUsername st s n), s)"
| "perform st s (CreateUser u) = settle UserRow (createUser st s u)"
| "perform st s GetAllPosts = (PostList (getAllPosts st s), s)"
| "perform st s (GetPostById i) = (PostOpt (getPostById st s i), s)"
| "perform st s (GetPostBySlug g) = (PostOpt (getPostBySlug st s g), s)"
| "perform st s (CreatePost now p) = settle PostRow (createPost st s now p)"
| "perform st s (UpdatePost i u) = settle PostOpt (updatePost st s i u)"
| "perform st s (DeletePost i) = settle Flag (deletePost st s i)"
| "perform st s GetFeaturedPost = (PostOpt (getFeaturedPost st s), s)"
| "perform st s (GetPaginatedPosts page limit) =
     settle Page (getPaginatedPosts st s page limit, s)"
| "perform st s GetAllTags = (TagList (getAllTags st s), s)"
| "perform st s (GetTagById i) = (TagOpt (getTagById st s i), s)"
| "perform st s (GetTagBySlug g) = (TagOpt (getTagBySlug st s g), s)"
| "perform st s (CreateTag t) = settle TagRow (createTag st s t)"
| "perform st s (GetPostsByTagId i) = (PostList (getPostsByTagId st s i), s)"
| "perform st s (GetPostsByTagSlug g) = (PostList (getPostsByTagSlug st s g), s)"
| "perform st s (GetTagsByPostId i) = (TagList (getTagsByPostId st s i), s)"
| "perform st s (AddTagToPost pt) = settle PostTagRow (addTagToPost st s pt)"
| "perform st s (RemoveTagFromPost p t) = settle Flag (removeTagFromPost st s p t)"
| "perform st s (CreateSubscriber now e) = settle SubscriberRow (createSubscriber st s now e)"
| "perform st s (GetSubscriberByEmail e) = (SubscriberOpt (getSubscriberByEmail st s e), s)"
| "perform st s GetAllSubscribers = (SubscriberList (getAllSubscribers st s), s)"

text \<open>A sequence of calls, one after the other: the results, and the state left behind.\<close>

fun run :: "'s IStorage \<Rightarrow> 's \<Rightarrow> op list \<Rightarrow> result list \<times> 's" where
  "run st s [] = ([], s)"
| "run st s (c # cs) =
     (let r = perform st s c; rest = run st (snd r) cs in (fst r # fst rest, snd rest))"

subsection \<open>The states of the in-memory store\<close>

text \<open>
  The constructor seeds through the class's own create methods, so every state the store
  is ever in is reached from the empty store by calls of the interface.
\<close>

inductive Mem_reachable :: "MemStorage \<Rightarrow> bool" where
  fresh: "Mem_reachable MemStorage_new"
| call: "Mem_reachable s \<Longrightarrow> Mem_reachable (snd (perform Mem_IStorage s c))"

text \<open>
  What the id counters guarantee: in each map the keys are distinct, every row is stored
  under its own id, and every id is below the counter.
\<close>

definition entries_ok :: "('v \<Rightarrow> int) \<Rightarrow> 'v jsmap \<Rightarrow> int \<Rightarrow> bool" where
  "entries_ok ident m next_id =
     (distinct (map fst m) \<and> (\<forall>e \<in> set m. ident (snd e) = fst e \<and> fst e < next_id))"

definition Mem_wf :: "MemStorage \<Rightarrow> bool" where
  "Mem_wf s =
     (entries_ok user_id (users s) (currentUserId s) \<and>
      entries_ok post_id (posts s) (currentPostId s) \<and>
      entries_ok tag_id (tags s) (currentTagId s) \<and>
      entries_ok pt_id (postTags s) (currentPostTagId s) \<and>
      entries_ok sub_id (subscribers s) (currentSubscriberId s))"

section \<open>The route layer (server/routes.ts)\<close>

text \<open>
  A handler takes the storage it is wired to and the state of that storage, and gives the
  response (and the state, when it writes). A response is its status code and its body.
  The \<^verbatim>\<open>catch\<close> branch of a handler is its answer to a rejected call; a handler whose
  calls reject in neither store has no such branch here.
\<close>

record Pagination =
  pgn_total :: nat
  pgn_page :: int
  pgn_limit :: int
  pgn_totalPages :: int

type_synonym PostWithTags = "Post \<times> Tag list"

datatype body =
  Message string
| PostsPage "PostWithTags list" Pagination
| PostJson PostWithTags
| PostsJson "PostWithTags list"
| Xml string
| Plain string

record Response =
  status :: nat
  body :: body

text \<open>
  \<^verbatim>\<open>parseInt(q) || d\<close>: the argument is what \<^verbatim>\<open>parseInt\<close> read from the query string
  (\<open>None\<close> for \<^verbatim>\<open>NaN\<close>); \<^verbatim>\<open>NaN\<close> and \<open>0\<close> are falsy and give the default.
\<close>

definition or_default :: "int option \<Rightarrow> int \<Rightarrow> int" where
  "or_default parsed d = (case parsed of None \<Rightarrow> d | Some n \<Rightarrow> if n = 0 then d else n)"

text \<open>\<^verbatim>\<open>{ ...post, tags }\<close> for every post, in the order of the posts.\<close>

definition withTags :: "'s IStorage \<Rightarrow> 's \<Rightarrow> Post list \<Rightarrow> PostWithTags list" where
  "withTags st s ps = map (\<lambda>post. (post, getTagsByPostId st s (post_id post))) ps"

text \<open>
  \<^verbatim>\<open>Math.ceil(total / limit)\<close>, on the reals (the quotient of two integers below
  \<open>2\<^sup>5\<^sup>3\<close> never rounds across an integer).
\<close>

definition get_api_posts :: "'s IStorage \<Rightarrow> 's \<Rightarrow> int option \<Rightarrow> int option \<Rightarrow> Response" where
  "get_api_posts st s page_query limit_query =
     (let page = or_default page_query 1;
          limit = or_default limit_query 6
      in case getPaginatedPosts st s page limit of
           Inl e \<Rightarrow> \<lparr>status = 500, body = Message ''Error fetching posts''\<rparr>
         | Inr res \<Rightarrow>
             \<lparr>status = 200,
              body = PostsPage (withTags st s (pg_posts res))
                       \<lparr>pgn_total = pg_total res, pgn_page = page, pgn_limit = limit,
                        pgn_totalPages = \<lceil>real (pg_total res) / real_of_int limit\<rceil>\<rparr>\<rparr>)"

definition get_api_posts_featured :: "'s IStorage \<Rightarrow> 's \<Rightarrow> Response" where
  "get_api_posts_featured st s =
     (case getFeaturedPost st s of
        None \<Rightarrow> \<lparr>status = 404, body = Message ''No featured post found''\<rparr>
      | Some featuredPost \<Rightarrow>
          \<lparr>status = 200,
           body = PostJson (featuredPost, getTagsByPostId st s (post_id featuredPost))\<rparr>)"


text \<open>
  \<^verbatim>\<open>insertSubscriberSchema.parse(req.body)\<close> either throws a \<^verbatim>\<open>ZodError\<close> (carried here
  with the message \<^verbatim>\<open>fromZodError\<close> gives it) or returns the parsed row.
\<close>

datatype 'a parsed = ZodError string | Parsed 'a


subsection \<open>The RSS feed\<close>

text \<open>
  \<^verbatim>\<open>Date.prototype.toUTCString\<close>, as ECMAScript defines it:
  \<^verbatim>\<open>Www, DD Mon YYYY HH:mm:ss GMT\<close> in the proleptic Gregorian calendar, and
  \<^verbatim>\<open>Invalid Date\<close> for \<^verbatim>\<open>NaN\<close>.
\<close>

definition digit_char :: "nat \<Rightarrow> char" where
  "digit_char n = char_of (48 + n)"

fun decimal :: "nat \<Rightarrow> string" where
  "decimal n = (if n < 10 then [digit_char n] else decimal (n div 10) @ [digit_char (n mod 10)])"

declare decimal.simps [simp del]

definition zero_pad :: "nat \<Rightarrow> nat \<Rightarrow> string" where
  "zero_pad w n = replicate (w - length (decimal n)) (CHR ''0'') @ decimal n"

definition civil_from_days :: "int \<Rightarrow> int \<times> int \<times> int" where
  "civil_from_days z0 =
     (let z = z0 + 719468;
          era = z div 146097;
          doe = z - era * 146097;
          yoe = (doe - doe div 1460 + doe div 36524 - doe div 146096) div 365;
          doy = doe - (365 * yoe + yoe div 4 - yoe div 100);
          mp = (5 * doy + 2) div 153;
          dd = doy - (153 * mp + 2) div 5 + 1;
          mm = (if mp < 10 then mp + 3 else mp - 9);
          yy = yoe + era * 400 + (if mm \<le> 2 then 1 else 0)
      in (yy, mm, dd))"

definition day_names :: "string list" where
  "day_names = [''Sun'', ''Mon'', ''Tue'', ''Wed'', ''Thu'', ''Fri'', ''Sat'']"

definition month_names :: "string list" where
  "month_names =
     [''Jan'', ''Feb'', ''Mar'', ''Apr'', ''May'', ''Jun'',
      ''Jul'', ''Aug'', ''Sep'', ''Oct'', ''Nov'', ''Dec'']"

definition toUTCString :: "int option \<Rightarrow> string" where
  "toUTCString tv =
     (case tv of
        None \<Rightarrow> ''Invalid Date''
      | Some t \<Rightarrow>
          (let days = t div 86400000;
               ms = t mod 86400000;
               (yy, mm, dd) = civil_from_days days
           in day_names ! nat ((days + 4) mod 7) @ '', '' @ zero_pad 2 (nat dd) @ '' '' @
              month_names ! nat (mm - 1) @ '' '' @
              (if yy < 0 then ''-'' else []) @ zero_pad 4 (nat \<bar>yy\<bar>) @ '' '' @
              zero_pad 2 (nat (ms div 3600000)) @ '':'' @
              zero_pad 2 (nat (ms div 60000 mod 60)) @ '':'' @
              zero_pad 2 (nat (ms div 1000 mod 60)) @ '' GMT''))"

text \<open>
  \<^verbatim>\<open>process.env.BASE_URL || `http://${req.headers.host}`\<close>: an unset or empty variable
  is falsy, and a missing header prints as \<^verbatim>\<open>undefined\<close>.
\<close>

definition base_url :: "string option \<Rightarrow> string option \<Rightarrow> string" where
  "base_url env_BASE_URL host =
     (case env_BASE_URL of
        Some u \<Rightarrow> if u = [] then ''http://'' @ (case host of None \<Rightarrow> ''undefined'' | Some h \<Rightarrow> h)
                  else u
      | None \<Rightarrow> ''http://'' @ (case host of None \<Rightarrow> ''undefined'' | Some h \<Rightarrow> h))"

definition rss_head :: "string \<Rightarrow> int \<Rightarrow> string" where
  \<open>rss_head baseUrl now =
     ''<?xml version="1.0" encoding="UTF-8"?>\<newline>'' @
     ''<rss version="2.0" xmlns:atom="http://www.w3.org/2005/Atom">\<newline>'' @
     ''  <channel>\<newline>'' @
     ''    <title>DevBlog - Next.js and MDX Blog</title>\<newline>'' @
     ''    <link>'' @ baseUrl @ ''</link>\<newline>'' @
     ''    <description>A modern blog platform with powerful content management, dark mode, and advanced features.</description>\<newline>'' @
     ''    <language>en-us</language>\<newline>'' @
     ''    <lastBuildDate>'' @ toUTCString (Some now) @ ''</lastBuildDate>\<newline>'' @
     ''    <atom:link href="'' @ baseUrl @ ''/rss.xml" rel="self" type="application/rss+xml" />\<newline>''\<close>

definition rss_item :: "string \<Rightarrow> PostWithTags \<Rightarrow> string" where
  "rss_item baseUrl post =
     ''\<newline>    <item>\<newline>'' @
     ''      <title>'' @ post_title (fst post) @ ''</title>\<newline>'' @
     ''      <link>'' @ baseUrl @ ''/posts/'' @ post_slug (fst post) @ ''</link>\<newline>'' @
     ''      <guid>'' @ baseUrl @ ''/posts/'' @ post_slug (fst post) @ ''</guid>\<newline>'' @
     ''      <pubDate>'' @ toUTCString (post_publishedAt (fst post)) @ ''</pubDate>\<newline>'' @
     ''      <description><![CDATA['' @ post_excerpt (fst post) @ '']]></description>\<newline>'' @
     ''    </item>''"

definition rss_foot :: string where
  "rss_foot = ''\<newline>  </channel>\<newline></rss>''"

text \<open>\<^verbatim>\<open>postsWithTags.forEach(post => { rss += ... })\<close> between the head and the foot.\<close>

definition get_rss_xml ::
  "'s IStorage \<Rightarrow> 's \<Rightarrow> string option \<Rightarrow> string option \<Rightarrow> int \<Rightarrow> Response" where
  "get_rss_xml st s env_BASE_URL host now =
     (let postsWithTags = withTags st s (getAllPosts st s);
          baseUrl = base_url env_BASE_URL host;
          rss = foldl (\<lambda>rss post. rss @ rss_item baseUrl post) (rss_head baseUrl now)
                  postsWithTags
      in \<lparr>status = 200, body = Xml (rss @ rss_foot)\<rparr>)"

text \<open>How often a piece of text stands in a document.\<close>

fun starts_with :: "string \<Rightarrow> string \<Rightarrow> bool" where
  "starts_with [] ys = True"
| "starts_with (x # xs) [] = False"
| "starts_with (x # xs) (y # ys) = (if x = y then starts_with xs ys else False)"

fun occurrences :: "string \<Rightarrow> string \<Rightarrow> nat" where
  "occurrences pat [] = 0"
| "occurrences pat (c # cs) =
     (if starts_with pat (c # cs) then 1 else 0) + occurrences pat cs"

section \<open>Vocabulary of the properties\<close>

text \<open>
  A list of posts is in descending order of \<^verbatim>\<open>publishedAt\<close> when every post is at least
  as recent as each post after it. Only a post that has a timestamp can be compared.
\<close>

definition newer_first :: "Post \<Rightarrow> Post \<Rightarrow> bool" where
  "newer_first a b =
     (case (post_publishedAt a, post_publishedAt b) of
        (Some ta, Some tb) \<Rightarrow> tb \<le> ta
      | _ \<Rightarrow> False)"

definition dated :: "Post list \<Rightarrow> bool" where
  "dated ps = (\<forall>p \<in> set ps. post_publishedAt p \<noteq> None)"

text \<open>
  An in-memory store and a database correspond when they hold the same rows, will hand out
  the same ids next, hold no post-tag pair twice and no value of a unique column twice,
  and every post has its \<^verbatim>\<open>publishedAt\<close> (the column is \<^verbatim>\<open>notNull\<close>). The rows of a table
  are listed as the map lists them; that order is one the engine may show or not, and the
  rankings in force are left open.
\<close>

definition pairs :: "PostTag list \<Rightarrow> (int \<times> int) list" where
  "pairs pts = map (\<lambda>pt. (pt_postId pt, pt_tagId pt)) pts"

definition corresponds :: "MemStorage \<Rightarrow> Database \<Rightarrow> bool" where
  "corresponds m d =
     (Mem_wf m \<and>
      Map_values (users m) = users_table d \<and>
      Map_values (posts m) = posts_table d \<and>
      Map_values (tags m) = tags_table d \<and>
      Map_values (postTags m) = post_tags_table d \<and>
      Map_values (subscribers m) = subscribers_table d \<and>
      currentUserId m = users_id_seq d \<and>
      currentPostId m = posts_id_seq d \<and>
      currentTagId m = tags_id_seq d \<and>
      currentPostTagId m = post_tags_id_seq d \<and>
      currentSubscriberId m = subscribers_id_seq d \<and>
      distinct (pairs (post_tags_table d)) \<and>
      dated (posts_table d) \<and>
      distinct (map user_username (users_table d)) \<and>
      distinct (map post_slug (posts_table d)) \<and>
      distinct (map tag_name (tags_table d)) \<and>
      distinct (map tag_slug (tags_table d)) \<and>
      distinct (map sub_email (subscribers_table d)))"

text \<open>
  Values that both stores hold as they are: an integer of the 32-bit range of the
  \<^verbatim>\<open>integer\<close> and \<^verbatim>\<open>serial\<close> columns, and text without the character U+0000, which a
  \<^verbatim>\<open>text\<close> column does not take. A call has plain arguments when its ids, its page and
  limit, its texts and the id that a creation will hand out are such values. What the
  engine does with other arguments is not modelled, and the comparison of the two stores
  leaves them out.
\<close>

definition int4 :: "int \<Rightarrow> bool" where
  "int4 n = (- 2147483648 \<le> n \<and> n \<le> 2147483647)"

definition text_ok :: "string \<Rightarrow> bool" where
  "text_ok s = (CHR 0x00 \<notin> set s)"

definition plain_post :: "InsertPost \<Rightarrow> bool" where
  "plain_post p =
     (text_ok (ip_slug p) \<and> text_ok (ip_title p) \<and> text_ok (ip_excerpt p) \<and>
      text_ok (ip_content p) \<and> text_ok (ip_readingTime p) \<and>
      (case ip_coverImage p of Val s \<Rightarrow> text_ok s | _ \<Rightarrow> True) \<and>
      (case ip_authorId p of Val a \<Rightarrow> int4 a | _ \<Rightarrow> True))"

definition plain_key :: "string option \<Rightarrow> bool" where
  "plain_key k = (case k of None \<Rightarrow> True | Some s \<Rightarrow> text_ok s)"

definition plain_updates :: "PostUpdates \<Rightarrow> bool" where
  "plain_updates u =
     (plain_key (pu_slug u) \<and> plain_key (pu_title u) \<and> plain_key (pu_excerpt u) \<and>
      plain_key (pu_content u) \<and> plain_key (pu_readingTime u) \<and>
      (case pu_coverImage u of Some (Some s) \<Rightarrow> text_ok s | _ \<Rightarrow> True) \<and>
      (case pu_authorId u of Some (Some a) \<Rightarrow> int4 a | _ \<Rightarrow> True))"

fun plain_arguments :: "Database \<Rightarrow> op \<Rightarrow> bool" where
  "plain_arguments d (GetUser i) = int4 i"
| "plain_arguments d (GetUserByUsername n) = text_ok n"
| "plain_arguments d (CreateUser u) =
     (text_ok (iu_username u) \<and> text_ok (iu_password u) \<and> int4 (users_id_seq d))"
| "plain_arguments d GetAllPosts = True"
| "plain_arguments d (GetPostById i) = int4 i"
| "plain_arguments d (GetPostBySlug g) = text_ok g"
| "plain_arguments d (CreatePost now p) = (plain_post p \<and> int4 (posts_id_seq d))"
| "plain_arguments d (UpdatePost i u) = (int4 i \<and> plain_updates u)"
| "plain_arguments d (DeletePost i) = int4 i"
| "plain_arguments d GetFeaturedPost = True"
| "plain_arguments d (GetPaginatedPosts page limit) = (int4 page \<and> int4 limit)"
| "plain_arguments d GetAllTags = True"
| "plain_arguments d (GetTagById i) = int4 i"
| "plain_arguments d (GetTagBySlug g) = text_ok g"
| "plain_arguments d (CreateTag t) =
     (text_ok (it_name t) \<and> text_ok (it_slug t) \<and> int4 (tags_id_seq d))"
| "plain_arguments d (GetPostsByTagId i) = int4 i"
| "plain_arguments d (GetPostsByTagSlug g) = text_ok g"
| "plain_arguments d (GetTagsByPostId i) = int4 i"
| "plain_arguments d (AddTagToPost pt) =
     (int4 (ipt_postId pt) \<and> int4 (ipt_tagId pt) \<and> int4 (post_tags_id_seq d))"
| "plain_arguments d (RemoveTagFromPost p t) = (int4 p \<and> int4 t)"
| "plain_arguments d (CreateSubscriber now e) =
     (text_ok (is_email e) \<and> int4 (subscribers_id_seq d))"
| "plain_arguments d (GetSubscriberByEmail e) = text_ok e"
| "plain_arguments d GetAllSubscribers = True"

text \<open>
  The calls on which the two stores are compared: the call has plain arguments, the
  database accepts it, a new post comes with its \<^verbatim>\<open>publishedAt\<close>, \<^verbatim>\<open>coverImage\<close> and
  \<^verbatim>\<open>authorId\<close> (a value or \<^verbatim>\<open>null\<close>), a tag is not added to a post that already has it, and
  a post is not deleted while it has tags. Both stores are given the same reading of the
  clock.
\<close>

definition rejected :: "result \<Rightarrow> bool" where
  "rejected r = (case r of Rejected e \<Rightarrow> True | _ \<Rightarrow> False)"

fun unproblematic :: "Database \<Rightarrow> op \<Rightarrow> bool" where
  "unproblematic d (CreatePost now p) =
     (ip_publishedAt p \<noteq> None \<and> ip_coverImage p \<noteq> Undefined \<and> ip_authorId p \<noteq> Undefined)"
| "unproblematic d (AddTagToPost pt) =
     ((ipt_postId pt, ipt_tagId pt) \<notin> set (pairs (post_tags_table d)))"
| "unproblematic d (DeletePost i) = (i \<notin> set (map pt_postId (post_tags_table d)))"
| "unproblematic d c = True"

definition admissible :: "Database \<Rightarrow> op \<Rightarrow> bool" where
  "admissible d c =
     (plain_arguments d c \<and> \<not> rejected (fst (perform Db_IStorage d c)) \<and> unproblematic d c)"

text \<open>
  A sequence of calls against the database. Before every call the engine may take up
  other rankings: each call comes with the rankings that are in force while it runs.
\<close>

fun Db_run :: "Database \<Rightarrow> (planner \<times> op) list \<Rightarrow> result list \<times> Database" where
  "Db_run d [] = ([], d)"
| "Db_run d (pc # pcs) =
     (let r = perform Db_IStorage (d\<lparr>row_order := fst pc\<rparr>) (snd pc);
          rest = Db_run (snd r) pcs
      in (fst r # fst rest, snd rest))"

fun admissible_run :: "Database \<Rightarrow> (planner \<times> op) list \<Rightarrow> bool" where
  "admissible_run d [] = True"
| "admissible_run d (pc # pcs) =
     (admissible (d\<lparr>row_order := fst pc\<rparr>) (snd pc) \<and>
      admissible_run (snd (perform Db_IStorage (d\<lparr>row_order := fst pc\<rparr>) (snd pc))) pcs)"

text \<open>
  What a caller can compare when the order of rows is the engine's choice. Two lists that
  were read without \<^verbatim>\<open>ORDER BY\<close> hold the same rows, each as often as the other. Two
  listings of posts hold the same posts and are both newest first, so they differ at most
  in the order of posts of equal \<^verbatim>\<open>publishedAt\<close>. Two pages of the listing give the same
  total and, position by position, posts of the same \<^verbatim>\<open>publishedAt\<close>, each of them a
  stored post. Two featured posts are stored posts of the same \<^verbatim>\<open>publishedAt\<close>. Every
  other result is the same on both sides.
\<close>

definition same_rows :: "'a list \<Rightarrow> 'a list \<Rightarrow> bool" where
  "same_rows xs ys = (mset xs = mset ys)"

definition same_posts_newest_first :: "Post list \<Rightarrow> Post list \<Rightarrow> bool" where
  "same_posts_newest_first xs ys =
     (mset xs = mset ys \<and> sorted_wrt newer_first xs \<and> sorted_wrt newer_first ys)"

definition same_times :: "Post list \<Rightarrow> Post list \<Rightarrow> bool" where
  "same_times xs ys = (map post_publishedAt xs = map post_publishedAt ys)"

definition posts_agree :: "result \<Rightarrow> result \<Rightarrow> bool" where
  "posts_agree r r' =
     (case r of
        PostList xs \<Rightarrow> (case r' of PostList ys \<Rightarrow> same_posts_newest_first xs ys | _ \<Rightarrow> False)
      | _ \<Rightarrow> False)"

definition rows_agree :: "result \<Rightarrow> result \<Rightarrow> bool" where
  "rows_agree r r' =
     (case r of
        TagList xs \<Rightarrow> (case r' of TagList ys \<Rightarrow> same_rows xs ys | _ \<Rightarrow> False)
      | SubscriberList xs \<Rightarrow> (case r' of SubscriberList ys \<Rightarrow> same_rows xs ys | _ \<Rightarrow> False)
      | _ \<Rightarrow> False)"

definition pages_agree :: "Post list \<Rightarrow> result \<Rightarrow> result \<Rightarrow> bool" where
  "pages_agree stored_posts r r' =
     (case r of
        Page a \<Rightarrow>
          (case r' of
             Page b \<Rightarrow>
               pg_total a = pg_total b \<and> same_times (pg_posts a) (pg_posts b) \<and>
               set (pg_posts a) \<subseteq> set stored_posts \<and> set (pg_posts b) \<subseteq> set stored_posts
           | _ \<Rightarrow> False)
      | _ \<Rightarrow> False)"

definition featured_agree :: "Post list \<Rightarrow> result \<Rightarrow> result \<Rightarrow> bool" where
  "featured_agree stored_posts r r' =
     (case r of
        PostOpt a \<Rightarrow>
          (case r' of
             PostOpt b \<Rightarrow>
               map_option post_publishedAt a = map_option post_publishedAt b \<and>
               set_option a \<subseteq> set stored_posts \<and> set_option b \<subseteq> set stored_posts
           | _ \<Rightarrow> False)
      | _ \<Rightarrow> False)"

fun agree :: "MemStorage \<Rightarrow> op \<Rightarrow> result \<Rightarrow> result \<Rightarrow> bool" where
  "agree m GetAllPosts r r' = posts_agree r r'"
| "agree m (GetPostsByTagId i) r r' = posts_agree r r'"
| "agree m (GetPostsByTagSlug g) r r' = posts_agree r r'"
| "agree m GetFeaturedPost r r' = featured_agree (Map_values (posts m)) r r'"
| "agree m (GetPaginatedPosts page limit) r r' = pages_agree (Map_values (posts m)) r r'"
| "agree m GetAllTags r r' = rows_agree r r'"
| "agree m (GetTagsByPostId i) r r' = rows_agree r r'"
| "agree m GetAllSubscribers r r' = rows_agree r r'"
| "agree m c r r' = (r = r')"

text \<open>
  The results of a sequence of calls agree when they agree call by call; the stored posts
  that a page or a featured post is held against are those of the in-memory store at the
  moment of the call.
\<close>

fun agree_all :: "MemStorage \<Rightarrow> op list \<Rightarrow> result list \<Rightarrow> result list \<Rightarrow> bool" where
  "agree_all m [] [] [] = True"
| "agree_all m (c # cs) (r # rs) (r' # rs') =
     (agree m c r r' \<and> agree_all (snd (perform Mem_IStorage m c)) cs rs rs')"
| "agree_all m cs rs rs' = False"

section \<open>Example stores\<close>


text \<open>Five posts, created one after the other on an empty store; the third is the newest.\<close>

definition demo_post :: "string \<Rightarrow> int \<Rightarrow> InsertPost" where
  "demo_post slug t =
     \<lparr>ip_slug = slug, ip_title = ''Title'', ip_excerpt = ''Excerpt'', ip_content = ''Content'',
      ip_coverImage = Null, ip_publishedAt = Some t, ip_readingTime = ''5 min read'',
      ip_authorId = Null\<rparr>"

definition five_posts :: "op list" where
  "five_posts =
     [CreatePost 0 (demo_post ''a'' 10), CreatePost 0 (demo_post ''b'' 30),
      CreatePost 0 (demo_post ''c'' 50), CreatePost 0 (demo_post ''d'' 20),
      CreatePost 0 (demo_post ''e'' 40)]"

definition demo_mem :: MemStorage where
  "demo_mem = snd (run Mem_IStorage MemStorage_new five_posts)"

definition demo_db :: Database where
  "demo_db = snd (run Db_IStorage Database_empty five_posts)"

text \<open>Three posts, the second created without \<^verbatim>\<open>publishedAt\<close>.\<close>

definition undated_posts :: "op list" where
  "undated_posts =
     [CreatePost 0 (demo_post ''a'' 10),
      CreatePost 0 ((demo_post ''b'' 0)\<lparr>ip_publishedAt := None\<rparr>),
      CreatePost 0 (demo_post ''c'' 20)]"

definition undated_mem :: MemStorage where
  "undated_mem = snd (run Mem_IStorage MemStorage_new undated_posts)"

text \<open>Five posts, the second created without \<^verbatim>\<open>publishedAt\<close>.\<close>

definition undated_five :: "op list" where
  "undated_five =
     [CreatePost 0 (demo_post ''a'' 10),
      CreatePost 0 ((demo_post ''b'' 0)\<lparr>ip_publishedAt := None\<rparr>),
      CreatePost 0 (demo_post ''c'' 20),
      CreatePost 0 (demo_post ''d'' 30),
      CreatePost 0 (demo_post ''e'' 40)]"

definition undated_five_mem :: MemStorage where
  "undated_five_mem = snd (run Mem_IStorage MemStorage_new undated_five)"




text \<open>One post, one tag, and the tag on the post.\<close>

definition tagged_post :: "op list" where
  "tagged_post =
     [CreatePost 0 (demo_post ''a'' 10),
      CreateTag \<lparr>it_name = ''React'', it_slug = ''react''\<rparr>,
      AddTagToPost \<lparr>ipt_postId = 1, ipt_tagId = 1\<rparr>]"

definition tagged_mem :: MemStorage where
  "tagged_mem = snd (run Mem_IStorage MemStorage_new tagged_post)"

definition tagged_db :: Database where
  "tagged_db = snd (run Db_IStorage Database_empty tagged_post)"

text \<open>The same post and tag, before the tag is put on the post.\<close>

definition untagged_mem :: MemStorage where
  "untagged_mem = snd (run Mem_IStorage MemStorage_new (take 2 tagged_post))"

text \<open>One post whose title carries markup; and the text of a feed response.\<close>

definition markup_title :: "op list" where
  "markup_title =
     [CreatePost 1686787200000
        ((demo_post ''a'' 1686787200000)\<lparr>ip_title := ''A</title></item><item><title>B''\<rparr>)]"

definition markup_db :: Database where
  "markup_db = snd (run Db_IStorage Database_empty markup_title)"

definition xml_of :: "Response \<Rightarrow> string" where
  "xml_of r = (case body r of Xml x \<Rightarrow> x | _ \<Rightarrow> [])"

text \<open>
  Rankings that hand out the rows of higher id first (for ids below 100; a pair of a join
  by the id of its post-tag row).
\<close>

definition latest_row_first :: planner where
  "latest_row_first =
     \<lparr>users_rank = (\<lambda>u. nat (100 - user_id u)),
      posts_rank = (\<lambda>p. nat (100 - post_id p)),
      tags_rank = (\<lambda>t. nat (100 - tag_id t)),
      subscribers_rank = (\<lambda>s. nat (100 - sub_id s)),
      posts_join_rank = (\<lambda>r. nat (100 - pt_id (snd r))),
      tags_join_rank = (\<lambda>r. nat (100 - pt_id (snd r)))\<rparr>"

text \<open>
  A session of calls that the database accepts: writes of every kind, and reads, some
  under each of the two rankings. The first two posts have the same \<^verbatim>\<open>publishedAt\<close>, and
  the first post has two tags.
\<close>

definition demo_writes :: "op list" where
  "demo_writes =
     [CreateUser \<lparr>iu_username = ''admin'', iu_password = ''admin123''\<rparr>,
      CreatePost 5 ((demo_post ''a'' 10)\<lparr>ip_authorId := Val 1\<rparr>),
      CreatePost 5 (demo_post ''b'' 10),
      CreatePost 5 (demo_post ''c'' 30),
      CreateTag \<lparr>it_name = ''React'', it_slug = ''react''\<rparr>,
      CreateTag \<lparr>it_name = ''CSS'', it_slug = ''css''\<rparr>,
      AddTagToPost \<lparr>ipt_postId = 1, ipt_tagId = 1\<rparr>,
      AddTagToPost \<lparr>ipt_postId = 1, ipt_tagId = 2\<rparr>,
      AddTagToPost \<lparr>ipt_postId = 2, ipt_tagId = 1\<rparr>]"

definition demo_reads :: "op list" where
  "demo_reads =
     [GetAllPosts, GetPaginatedPosts 1 2, GetFeaturedPost, GetPostBySlug ''a'',
      GetPostsByTagSlug ''react'', GetTagsByPostId 1, GetAllTags]"

definition demo_changes :: "op list" where
  "demo_changes =
     [UpdatePost 1
        \<lparr>pu_slug = None, pu_title = Some ''New title'', pu_excerpt = None, pu_content = None,
         pu_coverImage = None, pu_publishedAt = Some 30, pu_readingTime = None,
         pu_authorId = None\<rparr>,
      GetAllPosts, GetFeaturedPost,
      RemoveTagFromPost 1 1, RemoveTagFromPost 1 2, GetPostsByTagId 1, DeletePost 1,
      GetPostById 1,
      CreateSubscriber 7 \<lparr>is_email = ''a@b.com''\<rparr>,
      CreateSubscriber 8 \<lparr>is_email = ''c@d.com''\<rparr>,
      GetSubscriberByEmail ''a@b.com'', GetAllSubscribers, GetUserByUsername ''admin'']"

definition demo_session :: "(planner \<times> op) list" where
  "demo_session =
     map (Pair table_order) demo_writes @ map (Pair table_order) demo_reads @
     map (Pair latest_row_first) demo_reads @ map (Pair latest_row_first) demo_changes"

section \<open>Sorting\<close>

subsection \<open>The stable arrangement\<close>

lemma set_sort_insert [simp]: "set (sort_insert cmp x xs) = insert x (set xs)"
  by (induction xs) auto

lemma length_sort_insert [simp]: "length (sort_insert cmp x xs) = Suc (length xs)"
  by (induction xs) auto

lemma mset_sort_insert [simp]: "mset (sort_insert cmp x xs) = add_mset x (mset xs)"
  by (induction xs) auto

lemma stable_arrangement_Cons:
  "stable_arrangement cmp (x # xs) = sort_insert cmp x (stable_arrangement cmp xs)"
  by (simp add: stable_arrangement_def)

lemma mset_stable_arrangement [simp]: "mset (stable_arrangement cmp xs) = mset xs"
  by (induction xs) (auto simp: stable_arrangement_def)

lemma set_stable_arrangement [simp]: "set (stable_arrangement cmp xs) = set xs"
  by (induction xs) (auto simp: stable_arrangement_def)

lemma set_orderBy [simp]: "set (orderBy cmp xs) = set xs"
  by (induction xs) (auto simp: orderBy_def)

lemma length_orderBy [simp]: "length (orderBy cmp xs) = length xs"
  by (induction xs) (auto simp: orderBy_def)

lemma mset_orderBy [simp]: "mset (orderBy cmp xs) = mset xs"
  by (induction xs) (auto simp: orderBy_def)

text \<open>
  Inserting into a list in order keeps it in order, when the comparator decides the order
  between the new element and the list and the order is transitive there.
\<close>

lemma sorted_wrt_sort_insert:
  assumes "sorted_wrt R xs"
    and "\<And>y. y \<in> set xs \<Longrightarrow> SortCompare cmp x y \<le> 0 \<Longrightarrow> R x y"
    and "\<And>y. y \<in> set xs \<Longrightarrow> \<not> SortCompare cmp x y \<le> 0 \<Longrightarrow> R y x"
    and "\<And>y z. y \<in> set xs \<Longrightarrow> z \<in> set xs \<Longrightarrow> R x y \<Longrightarrow> R y z \<Longrightarrow> R x z"
  shows "sorted_wrt R (sort_insert cmp x xs)"
  using assms
proof (induction xs)
  case Nil
  then show ?case by simp
next
  case (Cons y ys)
  show ?case
  proof (cases "SortCompare cmp x y \<le> 0")
    case True
    have xy: "R x y" using Cons.prems(2) True by simp
    have "\<forall>z \<in> set ys. R x z"
    proof
      fix z assume z: "z \<in> set ys"
      have "R y z" using Cons.prems(1) z by simp
      then show "R x z" using Cons.prems(4)[of y z] xy z by simp
    qed
    then show ?thesis using True xy Cons.prems(1) by simp
  next
    case False
    have yx: "R y x" using Cons.prems(3) False by simp
    have "sorted_wrt R (sort_insert cmp x ys)"
    proof (rule Cons.IH)
      show "sorted_wrt R ys" using Cons.prems(1) by simp
    qed (use Cons.prems in auto)
    then show ?thesis using False yx Cons.prems(1) by auto
  qed
qed

lemma newer_first_cmp:
  assumes "post_publishedAt x \<noteq> None" "post_publishedAt y \<noteq> None"
  shows "SortCompare byPublishedAtDesc x y \<le> 0 \<longleftrightarrow> newer_first x y"
    and "\<not> SortCompare byPublishedAtDesc x y \<le> 0 \<Longrightarrow> newer_first y x"
  using assms
  by (auto simp: SortCompare_def byPublishedAtDesc_def js_minus_def getTime_def newer_first_def)

lemma newer_first_trans: "newer_first x y \<Longrightarrow> newer_first y z \<Longrightarrow> newer_first x z"
  by (auto simp: newer_first_def split: option.splits)

lemma sorted_stable_arrangement:
  assumes "dated xs"
  shows "sorted_wrt newer_first (stable_arrangement byPublishedAtDesc xs)"
  using assms
proof (induction xs)
  case Nil
  then show ?case by (simp add: stable_arrangement_def)
next
  case (Cons x xs)
  have ih: "sorted_wrt newer_first (stable_arrangement byPublishedAtDesc xs)"
    using Cons by (simp add: dated_def)
  show ?case
    unfolding stable_arrangement_Cons
  proof (rule sorted_wrt_sort_insert[OF ih])
    fix y
    assume "y \<in> set (stable_arrangement byPublishedAtDesc xs)"
      and "SortCompare byPublishedAtDesc x y \<le> 0"
    then show "newer_first x y"
      using Cons.prems newer_first_cmp(1)[of x y] by (simp add: dated_def)
  next
    fix y
    assume "y \<in> set (stable_arrangement byPublishedAtDesc xs)"
      and "\<not> SortCompare byPublishedAtDesc x y \<le> 0"
    then show "newer_first y x"
      using Cons.prems newer_first_cmp(2)[of x y] by (simp add: dated_def)
  next
    fix y z
    assume "newer_first x y" "newer_first y z"
    then show "newer_first x z" by (rule newer_first_trans)
  qed
qed

text \<open>On posts that all have a timestamp the SQL order is the stable arrangement.\<close>

lemma desc_cmp:
  assumes "post_publishedAt x \<noteq> None" "post_publishedAt y \<noteq> None"
  shows "SortCompare (desc post_publishedAt) x y \<le> 0
           \<longleftrightarrow> SortCompare byPublishedAtDesc x y \<le> 0"
  using assms
  by (auto simp: SortCompare_def byPublishedAtDesc_def js_minus_def getTime_def desc_def
      split: if_splits)

lemma sort_insert_cong:
  assumes "\<And>y. y \<in> set xs \<Longrightarrow> SortCompare c1 x y \<le> 0 \<longleftrightarrow> SortCompare c2 x y \<le> 0"
  shows "sort_insert c1 x xs = sort_insert c2 x xs"
  using assms by (induction xs) auto

lemma orderBy_stable_arrangement:
  assumes "dated xs"
  shows "orderBy (desc post_publishedAt) xs = stable_arrangement byPublishedAtDesc xs"
  using assms
proof (induction xs)
  case Nil
  then show ?case by (simp add: orderBy_def stable_arrangement_def)
next
  case (Cons x xs)
  have ih: "orderBy (desc post_publishedAt) xs = stable_arrangement byPublishedAtDesc xs"
    using Cons by (simp add: dated_def)
  have "sort_insert (desc post_publishedAt) x (stable_arrangement byPublishedAtDesc xs)
        = sort_insert byPublishedAtDesc x (stable_arrangement byPublishedAtDesc xs)"
    using Cons.prems by (intro sort_insert_cong desc_cmp) (auto simp: dated_def)
  then show ?case using ih by (simp add: orderBy_def stable_arrangement_def)
qed

lemma sorted_orderBy:
  assumes "dated xs"
  shows "sorted_wrt newer_first (orderBy (desc post_publishedAt) xs)"
  using assms by (simp add: orderBy_stable_arrangement sorted_stable_arrangement)

subsection \<open>The run and the binary insertion\<close>

text \<open>The sort rearranges: it neither drops nor adds an element.\<close>

lemma extend_run_parts:
  "fst (extend_run cmp dsc prev zs) @ snd (extend_run cmp dsc prev zs) = zs"
  by (induction zs arbitrary: prev) (auto simp: Let_def)

lemma mset_extend_run:
  "mset (fst (extend_run cmp dsc prev zs)) + mset (snd (extend_run cmp dsc prev zs)) = mset zs"
  by (metis extend_run_parts mset_append)

lemma mset_CountAndMakeRun:
  "mset (fst (CountAndMakeRun cmp xs)) + mset (snd (CountAndMakeRun cmp xs)) = mset xs"
proof (cases xs)
  case Nil
  then show ?thesis by (simp add: CountAndMakeRun_def)
next
  case (Cons x tail)
  show ?thesis
  proof (cases tail)
    case Nil
    then show ?thesis using Cons by (simp add: CountAndMakeRun_def)
  next
    case (Cons y rest)
    show ?thesis
      using \<open>xs = x # tail\<close> Cons mset_extend_run[of cmp _ y rest]
      by (auto simp: CountAndMakeRun_def Let_def)
  qed
qed

lemma mset_insert_pivot [simp]: "mset (insert_pivot cmp work pivot) = add_mset pivot (mset work)"
proof -
  have "mset (take n work) + mset (drop n work) = mset work" for n
    by (metis append_take_drop_id mset_append)
  then show ?thesis by (simp add: insert_pivot_def Let_def)
qed

lemma mset_BinaryInsertionSort [simp]:
  "mset (BinaryInsertionSort cmp part others) = mset part + mset others"
  unfolding BinaryInsertionSort_def by (induction others arbitrary: part) auto

lemma mset_Array_sort [simp]: "mset (Array_sort cmp xs) = mset xs"
  by (simp add: Array_sort_def Let_def mset_CountAndMakeRun)

lemma set_Array_sort [simp]: "set (Array_sort cmp xs) = set xs"
  by (metis mset_Array_sort set_mset_mset)

lemma length_Array_sort [simp]: "length (Array_sort cmp xs) = length xs"
  by (metis mset_Array_sort size_mset)

lemma Array_sort_Nil [simp]: "Array_sort cmp [] = []"
  by (simp add: Array_sort_def CountAndMakeRun_def BinaryInsertionSort_def)

text \<open>
  With a comparator that is \<^verbatim>\<open>NaN\<close> against one element the result shows the steps of the
  sort. Times 10, 20, none, 30 under the comparator of the post listings: the run is 10,
  20, strictly descending for the comparator and so reversed to 20, 10; the element
  without time goes behind it, and 30 in front.
\<close>

lemma Array_sort_steps:
  "CountAndMakeRun (\<lambda>a b. js_minus (getTime b) (getTime a)) [Some 10, Some 20, None, Some 30]
     = ([Some 20, Some 10], [None, Some 30]) \<and>
   Array_sort (\<lambda>a b. js_minus (getTime b) (getTime a)) [Some 10, Some 20, None, Some 30]
     = [Some 30, Some 20, Some 10, None]"
  by code_simp

text \<open>
  Where the comparator is the difference of a key, as \<open>k y - k x\<close>, the run is in
  descending order of the key, the binary search finds the place behind the elements that
  are not below the pivot, and so the sort returns the elements in descending order of the
  key.
\<close>

lemma run_never_descends:
  assumes "\<And>x y. x \<in> S \<Longrightarrow> y \<in> S \<Longrightarrow> SortCompare cmp x y = k y - k x"
    and "set (prev # zs) \<subseteq> S"
  shows "sorted_wrt (\<lambda>a b. k b \<le> k a) (prev # fst (extend_run cmp False prev zs))"
  using assms(2)
proof (induction zs arbitrary: prev)
  case Nil
  then show ?case by simp
next
  case (Cons z zs)
  have cmp: "SortCompare cmp z prev = k prev - k z" using assms(1) Cons.prems by simp
  show ?case
  proof (cases "SortCompare cmp z prev < 0")
    case True
    then show ?thesis by simp
  next
    case False
    have le: "k z \<le> k prev" using False cmp by simp
    have ih: "sorted_wrt (\<lambda>a b. k b \<le> k a) (z # fst (extend_run cmp False z zs))"
      using Cons.prems by (intro Cons.IH) simp
    have "\<forall>y \<in> set (fst (extend_run cmp False z zs)). k y \<le> k prev"
      using ih le by auto
    then show ?thesis using False le ih by (simp add: Let_def)
  qed
qed

lemma run_descends:
  assumes "\<And>x y. x \<in> S \<Longrightarrow> y \<in> S \<Longrightarrow> SortCompare cmp x y = k y - k x"
    and "set (prev # zs) \<subseteq> S"
  shows "sorted_wrt (\<lambda>a b. k a < k b) (prev # fst (extend_run cmp True prev zs))"
  using assms(2)
proof (induction zs arbitrary: prev)
  case Nil
  then show ?case by simp
next
  case (Cons z zs)
  have cmp: "SortCompare cmp z prev = k prev - k z" using assms(1) Cons.prems by simp
  show ?case
  proof (cases "0 \<le> SortCompare cmp z prev")
    case True
    then show ?thesis by simp
  next
    case False
    have lt: "k prev < k z" using False cmp by simp
    have ih: "sorted_wrt (\<lambda>a b. k a < k b) (z # fst (extend_run cmp True z zs))"
      using Cons.prems by (intro Cons.IH) simp
    have "\<forall>y \<in> set (fst (extend_run cmp True z zs)). k prev < k y"
      using ih lt by auto
    then show ?thesis using False lt ih by (simp add: Let_def)
  qed
qed

lemma sorted_CountAndMakeRun:
  assumes key: "\<And>x y. x \<in> S \<Longrightarrow> y \<in> S \<Longrightarrow> SortCompare cmp x y = k y - k x"
    and "set xs \<subseteq> S"
  shows "sorted_wrt (\<lambda>a b. k b \<le> k a) (fst (CountAndMakeRun cmp xs))"
proof (cases xs)
  case Nil
  then show ?thesis by (simp add: CountAndMakeRun_def)
next
  case (Cons x tail)
  show ?thesis
  proof (cases tail)
    case Nil
    then show ?thesis using Cons by (simp add: CountAndMakeRun_def)
  next
    case (Cons y rest)
    have xs: "xs = x # y # rest" using \<open>xs = x # tail\<close> Cons by simp
    have cmp: "SortCompare cmp y x = k x - k y" using key assms(2) xs by simp
    have sub: "set (y # rest) \<subseteq> S" using assms(2) xs by simp
    show ?thesis
    proof (cases "SortCompare cmp y x < 0")
      case True
      have lt: "k x < k y" using True cmp by simp
      have up: "sorted_wrt (\<lambda>a b. k a < k b) (y # fst (extend_run cmp True y rest))"
        using key sub by (rule run_descends)
      then have "sorted_wrt (\<lambda>a b. k a < k b) (x # y # fst (extend_run cmp True y rest))"
        using lt by auto
      then have "sorted_wrt (\<lambda>a b. k b < k a) (rev (x # y # fst (extend_run cmp True y rest)))"
        by (simp only: sorted_wrt_rev)
      then have "sorted_wrt (\<lambda>a b. k b \<le> k a) (rev (x # y # fst (extend_run cmp True y rest)))"
        by (rule sorted_wrt_mono_rel[rotated]) simp
      then show ?thesis using True xs by (simp add: CountAndMakeRun_def Let_def)
    next
      case False
      have le: "k y \<le> k x" using False cmp by simp
      have down: "sorted_wrt (\<lambda>a b. k b \<le> k a) (y # fst (extend_run cmp False y rest))"
        using key sub by (rule run_never_descends)
      then have "sorted_wrt (\<lambda>a b. k b \<le> k a) (x # y # fst (extend_run cmp False y rest))"
        using le by auto
      then show ?thesis using False xs by (simp add: CountAndMakeRun_def Let_def)
    qed
  qed
qed

lemma binary_search_place:
  assumes key: "\<And>x. x \<in> set work \<Longrightarrow> SortCompare cmp pivot x = k x - k pivot"
    and sorted: "sorted_wrt (\<lambda>a b. k b \<le> k a) work"
  shows "left \<le> right \<Longrightarrow> right \<le> length work \<Longrightarrow>
         \<forall>j < left. k pivot \<le> k (work ! j) \<Longrightarrow>
         \<forall>j. right \<le> j \<and> j < length work \<longrightarrow> k (work ! j) < k pivot \<Longrightarrow>
         binary_search cmp pivot work left right \<le> length work \<and>
         (\<forall>j < binary_search cmp pivot work left right. k pivot \<le> k (work ! j)) \<and>
         (\<forall>j. binary_search cmp pivot work left right \<le> j \<and> j < length work
               \<longrightarrow> k (work ! j) < k pivot)"
proof (induction "right - left" arbitrary: left right rule: less_induct)
  case less
  show ?case
  proof (cases "left < right")
    case False
    then have "binary_search cmp pivot work left right = left"
      by (simp add: binary_search.simps)
    moreover have "left = right" using False less.prems(1) by simp
    ultimately show ?thesis using less.prems by simp
  next
    case True
    define mid where "mid = left + (right - left) div 2"
    have mid: "left \<le> mid" "mid < right" using True by (simp_all add: mid_def)
    then have inb: "mid < length work" using less.prems(2) by simp
    have kmid: "SortCompare cmp pivot (work ! mid) = k (work ! mid) - k pivot"
      using key inb by simp
    have before: "k (work ! mid) \<le> k (work ! j)" if "j < mid" for j
      using sorted_wrt_nth_less[OF sorted that inb] .
    have after: "k (work ! j) \<le> k (work ! mid)" if "mid < j" "j < length work" for j
      using sorted_wrt_nth_less[OF sorted that] .
    show ?thesis
    proof (cases "SortCompare cmp pivot (work ! mid) < 0")
      case lt: True
      have eq: "binary_search cmp pivot work left right = binary_search cmp pivot work left mid"
        using True lt by (subst binary_search.simps) (simp add: mid_def Let_def)
      have below: "k (work ! mid) < k pivot" using lt kmid by simp
      have right': "\<forall>j. mid \<le> j \<and> j < length work \<longrightarrow> k (work ! j) < k pivot"
      proof (intro allI impI)
        fix j assume j: "mid \<le> j \<and> j < length work"
        show "k (work ! j) < k pivot"
        proof (cases "j = mid")
          case True
          then show ?thesis using below by simp
        next
          case False
          then have "k (work ! j) \<le> k (work ! mid)" using j after[of j] by simp
          then show ?thesis using below by simp
        qed
      qed
      have "mid - left < right - left" using mid by simp
      then show ?thesis
        unfolding eq using mid(1) inb less.prems(3) right'
        by (intro less.hyps) simp_all
    next
      case ge: False
      have eq: "binary_search cmp pivot work left right
                  = binary_search cmp pivot work (mid + 1) right"
        using True ge by (subst binary_search.simps) (simp add: mid_def Let_def)
      have above: "k pivot \<le> k (work ! mid)" using ge kmid by simp
      have left': "\<forall>j < mid + 1. k pivot \<le> k (work ! j)"
      proof (intro allI impI)
        fix j assume j: "j < mid + 1"
        show "k pivot \<le> k (work ! j)"
        proof (cases "j = mid")
          case True
          then show ?thesis using above by simp
        next
          case False
          then have "k (work ! mid) \<le> k (work ! j)" using j before[of j] by simp
          then show ?thesis using above by simp
        qed
      qed
      have "right - (mid + 1) < right - left" using mid by simp
      then show ?thesis
        unfolding eq using mid(2) less.prems(2) less.prems(4) left'
        by (intro less.hyps) simp_all
    qed
  qed
qed

lemma in_take_nth:
  assumes "x \<in> set (take l work)"
  shows "\<exists>i<l. i < length work \<and> work ! i = x"
proof -
  obtain i where i: "i < length (take l work)" "take l work ! i = x"
    using assms unfolding in_set_conv_nth by blast
  have "i < l" "i < length work" using i(1) by simp_all
  moreover have "work ! i = x" using i by simp
  ultimately show ?thesis by blast
qed

lemma in_drop_nth:
  assumes "y \<in> set (drop l work)"
  shows "\<exists>j\<ge>l. j < length work \<and> work ! j = y"
proof -
  obtain i where i: "i < length (drop l work)" "drop l work ! i = y"
    using assms unfolding in_set_conv_nth by blast
  have a: "l + i < length work" using i(1) by simp
  then have "l \<le> length work" by simp
  then have "work ! (l + i) = y" using i(2) by (simp add: nth_drop)
  then show ?thesis using a by (intro exI[of _ "l + i"]) simp
qed

lemma sorted_put:
  fixes k :: "'a \<Rightarrow> int"
  assumes sorted: "sorted_wrt (\<lambda>a b. k b \<le> k a) work"
    and len: "l \<le> length work"
    and front: "\<And>j. j < l \<Longrightarrow> k pivot \<le> k (work ! j)"
    and rear: "\<And>j. l \<le> j \<Longrightarrow> j < length work \<Longrightarrow> k (work ! j) < k pivot"
  shows "sorted_wrt (\<lambda>a b. k b \<le> k a) (take l work @ pivot # drop l work)"
proof -
  have tk: "k pivot \<le> k x" if "x \<in> set (take l work)" for x
    using in_take_nth[OF that] front by blast
  have dr: "k y < k pivot" if "y \<in> set (drop l work)" for y
    using in_drop_nth[OF that] rear by blast
  have s1: "sorted_wrt (\<lambda>a b. k b \<le> k a) (take l work)"
    using sorted by (rule sorted_wrt_take)
  have s2: "sorted_wrt (\<lambda>a b. k b \<le> k a) (drop l work)"
    using sorted by (rule sorted_wrt_drop)
  have s3: "sorted_wrt (\<lambda>a b. k b \<le> k a) (pivot # drop l work)"
  proof -
    have "\<forall>y \<in> set (drop l work). k y \<le> k pivot"
    proof
      fix y assume "y \<in> set (drop l work)"
      then have "k y < k pivot" by (rule dr)
      then show "k y \<le> k pivot" by simp
    qed
    then show ?thesis using s2 by simp
  qed
  have cross: "\<forall>x \<in> set (take l work). \<forall>y \<in> set (pivot # drop l work). k y \<le> k x"
  proof (intro ballI)
    fix x y
    assume x: "x \<in> set (take l work)" and y: "y \<in> set (pivot # drop l work)"
    have px: "k pivot \<le> k x" using x by (rule tk)
    show "k y \<le> k x"
    proof (cases "y = pivot")
      case True
      then show ?thesis using px by simp
    next
      case False
      then have "y \<in> set (drop l work)" using y by simp
      then have "k y < k pivot" by (rule dr)
      then show ?thesis using px by simp
    qed
  qed
  show ?thesis
    using s1 s3 cross
      sorted_wrt_append[of "\<lambda>a b. k b \<le> k a" "take l work" "pivot # drop l work"]
    by blast
qed

lemma sorted_insert_pivot:
  assumes key: "\<And>x. x \<in> set work \<Longrightarrow> SortCompare cmp pivot x = k x - k pivot"
    and sorted: "sorted_wrt (\<lambda>a b. k b \<le> k a) work"
  shows "sorted_wrt (\<lambda>a b. k b \<le> k a) (insert_pivot cmp work pivot)"
proof -
  let ?l = "binary_search cmp pivot work 0 (length work)"
  have place: "?l \<le> length work \<and> (\<forall>j < ?l. k pivot \<le> k (work ! j)) \<and>
               (\<forall>j. ?l \<le> j \<and> j < length work \<longrightarrow> k (work ! j) < k pivot)"
    using key sorted by (rule binary_search_place) simp_all
  have "sorted_wrt (\<lambda>a b. k b \<le> k a) (take ?l work @ pivot # drop ?l work)"
    using sorted
  proof (rule sorted_put)
    show "?l \<le> length work" using place by blast
    show "k pivot \<le> k (work ! j)" if "j < ?l" for j using place that by blast
    show "k (work ! j) < k pivot" if "?l \<le> j" "j < length work" for j
      using place that by blast
  qed
  then show ?thesis unfolding insert_pivot_def Let_def .
qed

lemma sorted_BinaryInsertionSort:
  assumes key: "\<And>x y. x \<in> S \<Longrightarrow> y \<in> S \<Longrightarrow> SortCompare cmp x y = k y - k x"
  shows "set part \<subseteq> S \<Longrightarrow> set others \<subseteq> S \<Longrightarrow> sorted_wrt (\<lambda>a b. k b \<le> k a) part \<Longrightarrow>
         sorted_wrt (\<lambda>a b. k b \<le> k a) (BinaryInsertionSort cmp part others)"
proof (induction others arbitrary: part)
  case Nil
  then show ?case by (simp add: BinaryInsertionSort_def)
next
  case (Cons pivot others)
  have "sorted_wrt (\<lambda>a b. k b \<le> k a) (insert_pivot cmp part pivot)"
    using Cons.prems key by (intro sorted_insert_pivot) auto
  moreover have "set (insert_pivot cmp part pivot) \<subseteq> S"
  proof -
    have "set (insert_pivot cmp part pivot) = insert pivot (set part)"
      by (metis mset_insert_pivot set_mset_add_mset_insert set_mset_mset)
    then show ?thesis using Cons.prems by simp
  qed
  ultimately have "sorted_wrt (\<lambda>a b. k b \<le> k a)
                     (BinaryInsertionSort cmp (insert_pivot cmp part pivot) others)"
    using Cons.prems(2) by (intro Cons.IH) simp_all
  then show ?case by (simp add: BinaryInsertionSort_def)
qed

text \<open>Posts that all have their \<^verbatim>\<open>publishedAt\<close> are sorted newest first.\<close>

lemma sorted_Array_sort:
  assumes "dated xs"
  shows "sorted_wrt newer_first (Array_sort byPublishedAtDesc xs)"
proof (cases "length xs < 64")
  case False
  then show ?thesis using assms by (simp add: Array_sort_def sorted_stable_arrangement)
next
  case True
  define k :: "Post \<Rightarrow> int"
    where "k = (\<lambda>p. case post_publishedAt p of None \<Rightarrow> 0 | Some t \<Rightarrow> t)"
  let ?found = "CountAndMakeRun byPublishedAtDesc xs"
  have key: "SortCompare byPublishedAtDesc x y = k y - k x" if "x \<in> set xs" "y \<in> set xs" for x y
    using that assms
    by (auto simp: dated_def SortCompare_def byPublishedAtDesc_def js_minus_def getTime_def k_def
        split: option.splits)
  have "set_mset (mset (fst ?found) + mset (snd ?found)) = set_mset (mset xs)"
    by (simp only: mset_CountAndMakeRun)
  then have parts: "set (fst ?found) \<subseteq> set xs" "set (snd ?found) \<subseteq> set xs"
    by auto
  have part: "sorted_wrt (\<lambda>a b. k b \<le> k a) (fst ?found)"
    by (rule sorted_CountAndMakeRun[where S = "set xs"]) (simp_all add: key)
  have "sorted_wrt (\<lambda>a b. k b \<le> k a) (BinaryInsertionSort byPublishedAtDesc (fst ?found) (snd ?found))"
    using parts part by (intro sorted_BinaryInsertionSort[where S = "set xs"]) (simp_all add: key)
  then have "sorted_wrt (\<lambda>a b. k b \<le> k a) (Array_sort byPublishedAtDesc xs)"
    using True by (simp add: Array_sort_def Let_def)
  then show ?thesis
  proof (rule sorted_wrt_mono_rel[rotated])
    fix a b
    assume "a \<in> set (Array_sort byPublishedAtDesc xs)" "b \<in> set (Array_sort byPublishedAtDesc xs)"
      and "k b \<le> k a"
    then show "newer_first a b"
      using assms by (auto simp: dated_def newer_first_def k_def split: option.splits)
  qed
qed

text \<open>
  Two lists of the same dated posts that are both newest first show the same times,
  position by position.
\<close>

lemma newest_first_same_times:
  assumes "mset xs = mset ys" and "dated xs"
    and "sorted_wrt newer_first xs" and "sorted_wrt newer_first ys"
  shows "map post_publishedAt xs = map post_publishedAt ys"
proof -
  define k :: "Post \<Rightarrow> int"
    where "k = (\<lambda>p. case post_publishedAt p of None \<Rightarrow> 0 | Some t \<Rightarrow> - t)"
  have sets: "set xs = set ys" using assms(1) by (rule mset_eq_setD)
  have dy: "dated ys" using assms(2) sets by (simp add: dated_def)
  have srt: "sorted (map k zs)" if "sorted_wrt newer_first zs" for zs
  proof -
    have "sorted_wrt (\<lambda>a b. k a \<le> k b) zs"
      using that
      by (rule sorted_wrt_mono_rel[rotated])
        (auto simp: newer_first_def k_def split: option.splits)
    then show ?thesis by (simp add: sorted_map)
  qed
  have "mset (map k ys) = mset (map k xs)" using assms(1) by simp
  then have "sort (map k xs) = map k ys"
    using srt[OF assms(4)] by (rule properties_for_sort)
  moreover have "sort (map k xs) = map k xs"
    using srt[OF assms(3)] by (rule sorted_sort_id)
  ultimately have keq: "map k xs = map k ys" by simp
  have times: "map post_publishedAt zs = map (\<lambda>v. Some (- v)) (map k zs)" if "dated zs" for zs
    using that by (auto simp: dated_def k_def split: option.splits)
  show ?thesis using times[OF assms(2)] times[OF dy] keq by simp
qed

section \<open>The engine's order of rows\<close>

lemma arrange_Nil [simp]: "arrange rank [] = []"
  by (simp add: arrange_def)

lemma arrange_single [simp]: "arrange rank [x] = [x]"
  by (simp add: arrange_def)

lemma set_arrange [simp]: "set (arrange rank xs) = set xs"
  by (simp add: arrange_def)

lemma length_arrange [simp]: "length (arrange rank xs) = length xs"
  by (simp add: arrange_def)

lemma mset_arrange [simp]: "mset (arrange rank xs) = mset xs"
  by (simp add: arrange_def)

lemma dated_arrange [simp]: "dated (arrange rank ps) = dated ps"
  by (simp add: dated_def)

lemma arrange_table_order [simp]: "arrange (\<lambda>r. 0) xs = xs"
  by (simp add: arrange_def sort_key_const)

text \<open>
  Rows that differ can be handed out in any order: rank each row by its place in the
  order wanted.
\<close>

lemma every_order_is_an_arrangement:
  assumes "distinct xs" and "mset ys = mset xs"
  shows "\<exists>rank. arrange rank xs = ys"
proof -
  define rank where "rank = (\<lambda>x. length (takeWhile (\<lambda>y. y \<noteq> x) ys))"
  have dy: "distinct ys" using assms by (metis mset_eq_imp_distinct_iff)
  have at: "rank (ys ! i) = i" if "i < length ys" for i
  proof -
    have "takeWhile (\<lambda>y. y \<noteq> ys ! i) ys = take i ys"
    proof (rule takeWhile_eq_take_P_nth)
      fix j assume "j < i" "j < length ys"
      then show "ys ! j \<noteq> ys ! i" using dy that by (simp add: nth_eq_iff_index_eq)
    next
      show "\<not> ys ! i \<noteq> ys ! i" by simp
    qed
    then show ?thesis using that by (simp add: rank_def)
  qed
  have "map rank ys = [0..<length ys]"
    by (rule nth_equalityI) (simp_all add: at)
  then have srt: "sorted (map rank ys)" by simp
  have "inj_on rank (set ys)"
  proof (rule inj_onI)
    fix a b assume "a \<in> set ys" "b \<in> set ys" "rank a = rank b"
    then obtain i j where "i < length ys" "a = ys ! i" "j < length ys" "b = ys ! j"
      by (metis in_set_conv_nth)
    then show "a = b" using at \<open>rank a = rank b\<close> by simp
  qed
  moreover have "set xs = set ys" using assms(2) by (metis mset_eq_setD)
  ultimately have inj: "inj_on rank (set xs)" by simp
  have "sort_key rank xs = ys"
    using assms(2)[symmetric] inj srt by (rule sort_key_inj_key_eq)
  then show ?thesis by (auto simp: arrange_def)
qed

section \<open>Lookups\<close>

lemma first_row_filter: "first_row (filter P xs) = find P xs"
  by (induction xs) (auto simp: first_row_def)


text \<open>Where a key is distinct, at most one row has a given key.\<close>

lemma one_hit:
  assumes "distinct (map f xs)"
  shows "filter (\<lambda>x. f x = k) xs = [] \<or> (\<exists>x. filter (\<lambda>x. f x = k) xs = [x])"
  using assms
proof (induction xs)
  case Nil
  then show ?case by simp
next
  case (Cons y ys)
  show ?case
  proof (cases "f y = k")
    case True
    then have "\<forall>x \<in> set ys. f x \<noteq> k" using Cons.prems by (auto simp: image_iff)
    then have "filter (\<lambda>x. f x = k) ys = []" by (simp add: filter_empty_conv)
    then show ?thesis using True by simp
  next
    case False
    then show ?thesis using Cons by simp
  qed
qed



lemma first_row_distinct:
  assumes "distinct (map f xs)"
  shows "first_row (arrange rank (filter (\<lambda>x. f x = k) xs)) = find (\<lambda>x. f x = k) xs"
proof -
  have "arrange rank (filter (\<lambda>x. f x = k) xs) = filter (\<lambda>x. f x = k) xs"
    using one_hit[OF assms, of k] by auto
  then show ?thesis by (simp add: first_row_filter)
qed

lemma withTags_Nil [simp]: "withTags st s [] = []"
  by (simp add: withTags_def)

section \<open>Posts of an unknown tag\<close>



section \<open>The maps and their id counters\<close>

lemma map_fst_Map_set_fresh: "k \<notin> set (map fst m) \<Longrightarrow> Map_set m k v = m @ [(k, v)]"
  by (induction m) auto

lemma set_Map_set: "set (Map_set m k v) \<subseteq> insert (k, v) (set m)"
  by (induction m) (auto split: if_splits)

lemma map_fst_Map_set_present: "k \<in> set (map fst m) \<Longrightarrow> map fst (Map_set m k v) = map fst m"
  by (induction m) force+

lemma entries_ok_fresh:
  assumes "entries_ok ident m n" "ident v = n"
  shows "Map_set m n v = m @ [(n, v)]" and "entries_ok ident (Map_set m n v) (n + 1)"
proof -
  have "n \<notin> set (map fst m)" using assms(1) by (auto simp: entries_ok_def)
  then show eq: "Map_set m n v = m @ [(n, v)]" by (rule map_fst_Map_set_fresh)
  show "entries_ok ident (Map_set m n v) (n + 1)"
    unfolding eq using assms by (fastforce simp: entries_ok_def)
qed

lemma map_of_in:
  assumes "map_of m k = Some v"
  shows "k \<in> set (map fst m)"
proof -
  have "(k, v) \<in> set m" using assms by (rule map_of_SomeD)
  then show ?thesis by force
qed

lemma entries_ok_replace:
  assumes "entries_ok ident m n" "Map_get m k = Some old" "ident v = k"
  shows "entries_ok ident (Map_set m k v) n"
proof -
  have k: "k \<in> set (map fst m)" using assms(2) map_of_in[of m k old] by (simp add: Map_get_def)
  have kn: "k < n" using assms(1) k by (auto simp: entries_ok_def)
  have "distinct (map fst (Map_set m k v))"
    using assms(1) k by (simp add: map_fst_Map_set_present entries_ok_def)
  moreover have "\<forall>e \<in> set (Map_set m k v). ident (snd e) = fst e \<and> fst e < n"
    using set_Map_set[of m k v] assms(1,3) kn by (auto simp: entries_ok_def)
  ultimately show ?thesis by (simp add: entries_ok_def)
qed

lemma entries_ok_delete:
  assumes "entries_ok ident m n"
  shows "entries_ok ident (snd (Map_delete m k)) n"
  using assms by (auto simp: entries_ok_def Map_delete_def distinct_map_filter)

lemma Mem_wf_perform:
  assumes "Mem_wf s"
  shows "Mem_wf (snd (perform Mem_IStorage s c))"
proof (cases c)
  case (CreateUser u)
  then show ?thesis using assms
    by (simp add: Mem_IStorage_def settle_def resolved_def Mem_createUser_def Let_def Mem_wf_def
        entries_ok_fresh(2))
next
  case (CreatePost now p)
  then show ?thesis using assms
    by (simp add: Mem_IStorage_def settle_def resolved_def Mem_createPost_def Let_def Mem_wf_def
        entries_ok_fresh(2))
next
  case (UpdatePost i u)
  show ?thesis
  proof (cases "Map_get (posts s) i")
    case None
    then show ?thesis using assms UpdatePost
      by (simp add: Mem_IStorage_def settle_def resolved_def Mem_updatePost_def)
  next
    case (Some post)
    have "Map_get (posts s) i = Some post" by fact
    then have "(i, post) \<in> set (posts s)" by (simp add: Map_get_def map_of_SomeD)
    then have "post_id post = i" using assms by (auto simp: Mem_wf_def entries_ok_def)
    then have "post_id (spread_updates post u) = i" by (simp add: spread_updates_def)
    then have "entries_ok post_id (Map_set (posts s) i (spread_updates post u)) (currentPostId s)"
      using assms Some by (intro entries_ok_replace[where old = post]) (auto simp: Mem_wf_def)
    then show ?thesis using assms UpdatePost Some
      by (simp add: Mem_IStorage_def settle_def resolved_def Mem_updatePost_def Mem_wf_def Let_def)
  qed
next
  case (DeletePost i)
  then show ?thesis using assms entries_ok_delete[of post_id "posts s" "currentPostId s" i]
    by (simp add: Mem_IStorage_def settle_def resolved_def Mem_deletePost_def Mem_wf_def
        case_prod_beta)
next
  case (CreateTag t)
  then show ?thesis using assms
    by (simp add: Mem_IStorage_def settle_def resolved_def Mem_createTag_def Let_def Mem_wf_def
        entries_ok_fresh(2))
next
  case (AddTagToPost pt)
  then show ?thesis using assms
    by (simp add: Mem_IStorage_def settle_def resolved_def Mem_addTagToPost_def Let_def Mem_wf_def
        entries_ok_fresh(2))
next
  case (RemoveTagFromPost p t)
  then show ?thesis using assms
      entries_ok_delete[of pt_id "postTags s" "currentPostTagId s"]
    by (simp add: Mem_IStorage_def settle_def resolved_def Mem_removeTagFromPost_def Mem_wf_def
        case_prod_beta split: option.splits)
next
  case (CreateSubscriber now e)
  then show ?thesis using assms
    by (simp add: Mem_IStorage_def settle_def resolved_def Mem_createSubscriber_def Let_def
        Mem_wf_def entries_ok_fresh(2))
qed (use assms in \<open>simp_all add: settle_def Mem_IStorage_def\<close>)

lemma Mem_wf_new: "Mem_wf MemStorage_new"
  by (simp add: Mem_wf_def MemStorage_new_def entries_ok_def)

lemma Mem_reachable_wf: "Mem_reachable s \<Longrightarrow> Mem_wf s"
  by (induction rule: Mem_reachable.induct) (simp_all add: Mem_wf_new Mem_wf_perform)

section \<open>Slices and page counts\<close>

lemma length_Array_slice:
  assumes "0 \<le> start" "start \<le> stop"
  shows "length (Array_slice xs start stop) \<le> nat (stop - start)"
  using assms by (auto simp: Array_slice_def Let_def min_def)

lemma Array_slice_take_drop:
  assumes "0 \<le> start" "start \<le> stop"
  shows "Array_slice xs start stop = take (nat (stop - start)) (drop (nat start) xs)"
  using assms by (auto simp: Array_slice_def Let_def min_def)

lemma total_pages_bounds:
  fixes limit :: int and total :: nat
  assumes "1 \<le> limit"
  shows "int total \<le> \<lceil>real total / real_of_int limit\<rceil> * limit"
    and "(\<lceil>real total / real_of_int limit\<rceil> - 1) * limit < int total"
proof -
  let ?q = "real total / real_of_int limit"
  have pos: "0 < real_of_int limit" using assms by simp
  have "?q \<le> of_int \<lceil>?q\<rceil>" by (rule le_of_int_ceiling)
  then have "real total \<le> of_int \<lceil>?q\<rceil> * real_of_int limit"
    using pos_divide_le_eq[OF pos, of "real total" "of_int \<lceil>?q\<rceil>"] by blast
  then have "real_of_int (int total) \<le> real_of_int (\<lceil>?q\<rceil> * limit)" by simp
  then show "int total \<le> \<lceil>?q\<rceil> * limit" by (simp only: of_int_le_iff)
  have "of_int \<lceil>?q\<rceil> - 1 < ?q" using ceiling_correct[of ?q] by simp
  then have "(of_int \<lceil>?q\<rceil> - 1) * real_of_int limit < real total"
    using pos_less_divide_eq[OF pos, of "of_int \<lceil>?q\<rceil> - 1" "real total"] by blast
  then have "real_of_int ((\<lceil>?q\<rceil> - 1) * limit) < real_of_int (int total)" by simp
  then show "(\<lceil>?q\<rceil> - 1) * limit < int total" by (simp only: of_int_less_iff)
qed

lemma total_pages_div:
  fixes limit :: int and total :: nat
  assumes "1 \<le> limit"
  shows "\<lceil>real total / real_of_int limit\<rceil> = (int total + limit - 1) div limit"
proof -
  let ?tp = "\<lceil>real total / real_of_int limit\<rceil>"
  let ?r = "int total + limit - 1 - limit * ?tp"
  have a: "int total \<le> ?tp * limit" and b: "(?tp - 1) * limit < int total"
    using total_pages_bounds[OF assms] by auto
  have "int total + limit - 1 = limit * ?tp + ?r" by simp
  moreover have "0 \<le> ?r" using b by (simp add: algebra_simps)
  moreover have "?r < limit" using a by (simp add: algebra_simps)
  ultimately have "(int total + limit - 1) div limit = ?tp" by (rule int_div_pos_eq)
  then show ?thesis by simp
qed

lemma total_pages_5_2: "\<lceil>real (5::nat) / real_of_int 2\<rceil> = 3"
  by (simp add: total_pages_div)

section \<open>The paginated listing\<close>

lemma Mem_reachable_run: "Mem_reachable s \<Longrightarrow> Mem_reachable (snd (run Mem_IStorage s cs))"
proof (induction cs arbitrary: s)
  case Nil
  then show ?case by simp
next
  case (Cons c cs)
  have "Mem_reachable (snd (perform Mem_IStorage s c))"
    using Cons.prems by (rule Mem_reachable.call)
  then show ?case using Cons.IH by (simp add: Let_def)
qed

lemma Mem_reachable_demo: "Mem_reachable demo_mem"
  unfolding demo_mem_def by (rule Mem_reachable_run) (rule Mem_reachable.fresh)

lemma take_2_drop_2_of_5:
  assumes "length xs = 5"
  shows "take 2 (drop 2 xs) = [xs ! 2, xs ! 3]"
proof -
  obtain a b c d e where "xs = [a, b, c, d, e]"
    using assms by (auto simp: length_Suc_conv eval_nat_numeral)
  then show ?thesis by simp
qed

lemma page_window:
  fixes page limit :: int
  assumes "1 \<le> page" "1 \<le> limit"
  shows "0 \<le> (page - 1) * limit" and "page * limit - (page - 1) * limit = limit"
  using assms by (simp_all add: algebra_simps)

lemma Mem_page:
  assumes "1 \<le> page" "1 \<le> limit"
  shows "Mem_getPaginatedPosts s page limit =
           \<lparr>pg_posts = take (nat limit) (drop (nat ((page - 1) * limit)) (Mem_getAllPosts s)),
            pg_total = length (Map_values (posts s))\<rparr>"
proof -
  have "Array_slice (Mem_getAllPosts s) ((page - 1) * limit) (page * limit)
          = take (nat limit) (drop (nat ((page - 1) * limit)) (Mem_getAllPosts s))"
    using page_window[OF assms] assms by (subst Array_slice_take_drop) auto
  then show ?thesis by (simp add: Mem_getPaginatedPosts_def Let_def Mem_getAllPosts_def)
qed

lemma Db_page:
  assumes "1 \<le> page" "1 \<le> limit"
  shows "Db_getPaginatedPosts d page limit =
           Inr \<lparr>pg_posts = take (nat limit) (drop (nat ((page - 1) * limit)) (Db_getAllPosts d)),
                pg_total = length (posts_table d)\<rparr>"
proof -
  have k: "\<not> (page - 1) * limit < 0" using page_window(1)[OF assms] by linarith
  have l: "\<not> limit < 0" using assms by linarith
  show ?thesis
    by (simp add: Db_getPaginatedPosts_def limit_offset_def Let_def Db_getAllPosts_def k l)
qed

lemma or_default_pos [simp]: "1 \<le> n \<Longrightarrow> or_default (Some n) d = n"
  by (auto simp: or_default_def)

text \<open>
  For \<open>page \<ge> 1\<close> and \<open>limit \<ge> 1\<close>, \<^verbatim>\<open>getPaginatedPosts\<close> returns at most \<open>limit\<close> posts and
  the number of stored posts as \<open>total\<close>, whatever the page; \<^verbatim>\<open>GET /api/posts\<close> answers 200
  and reports \<open>totalPages = \<lceil>total / limit\<rceil>\<close>, the least number of pages of \<open>limit\<close> posts
  that hold \<open>total\<close> posts. On a store of five posts, page 2 of limit 2 is the posts at
  positions 2 and 3 of \<^verbatim>\<open>getAllPosts\<close>, with \<open>totalPages = 3\<close>; and where every stored post
  has its \<^verbatim>\<open>publishedAt\<close>, \<^verbatim>\<open>getAllPosts\<close> is the stored posts, newest first. The same holds
  of the database, which does not reject such a page.
\<close>

theorem paginated_posts_page_and_total:
  assumes "1 \<le> page" and "1 \<le> limit"
  shows "length (pg_posts (Mem_getPaginatedPosts m page limit)) \<le> nat limit \<and>
         pg_total (Mem_getPaginatedPosts m page limit) = length (Map_values (posts m)) \<and>
         get_api_posts Mem_IStorage m (Some page) (Some limit) =
           \<lparr>status = 200,
            body = PostsPage (withTags Mem_IStorage m (pg_posts (Mem_getPaginatedPosts m page limit)))
                     \<lparr>pgn_total = length (Map_values (posts m)), pgn_page = page,
                      pgn_limit = limit,
                      pgn_totalPages = \<lceil>real (length (Map_values (posts m))) / real_of_int limit\<rceil>\<rparr>\<rparr> \<and>
         int (length (Map_values (posts m)))
           \<le> \<lceil>real (length (Map_values (posts m))) / real_of_int limit\<rceil> * limit \<and>
         (\<lceil>real (length (Map_values (posts m))) / real_of_int limit\<rceil> - 1) * limit
           < int (length (Map_values (posts m))) \<and>
         (length (Map_values (posts m)) = 5 \<longrightarrow>
            pg_posts (Mem_getPaginatedPosts m 2 2) = [Mem_getAllPosts m ! 2, Mem_getAllPosts m ! 3] \<and>
            get_api_posts Mem_IStorage m (Some 2) (Some 2) =
              \<lparr>status = 200,
               body = PostsPage (withTags Mem_IStorage m [Mem_getAllPosts m ! 2, Mem_getAllPosts m ! 3])
                        \<lparr>pgn_total = 5, pgn_page = 2, pgn_limit = 2, pgn_totalPages = 3\<rparr>\<rparr>) \<and>
         (\<exists>r. Db_getPaginatedPosts d page limit = Inr r \<and>
              length (pg_posts r) \<le> nat limit \<and> pg_total r = length (posts_table d) \<and>
              get_api_posts Db_IStorage d (Some page) (Some limit) =
                \<lparr>status = 200,
                 body = PostsPage (withTags Db_IStorage d (pg_posts r))
                          \<lparr>pgn_total = length (posts_table d), pgn_page = page,
                           pgn_limit = limit,
                           pgn_totalPages = \<lceil>real (length (posts_table d)) / real_of_int limit\<rceil>\<rparr>\<rparr>) \<and>
         (length (posts_table d) = 5 \<longrightarrow>
            Db_getPaginatedPosts d 2 2 =
              Inr \<lparr>pg_posts = [Db_getAllPosts d ! 2, Db_getAllPosts d ! 3], pg_total = 5\<rparr>) \<and>
         mset (Mem_getAllPosts m) = mset (Map_values (posts m)) \<and>
         mset (Db_getAllPosts d) = mset (posts_table d) \<and>
         (dated (Map_values (posts m)) \<longrightarrow> sorted_wrt newer_first (Mem_getAllPosts m)) \<and>
         (dated (posts_table d) \<longrightarrow> sorted_wrt newer_first (Db_getAllPosts d))"
proof -
  let ?n = "length (Map_values (posts m))"
  note pg = Mem_page[OF assms, of m]
  have len: "length (pg_posts (Mem_getPaginatedPosts m page limit)) \<le> nat limit"
    by (simp add: pg)
  have tot: "pg_total (Mem_getPaginatedPosts m page limit) = ?n"
    by (simp add: pg)
  have resp: "get_api_posts Mem_IStorage m (Some page) (Some limit) =
           \<lparr>status = 200,
            body = PostsPage (withTags Mem_IStorage m (pg_posts (Mem_getPaginatedPosts m page limit)))
                     \<lparr>pgn_total = ?n, pgn_page = page, pgn_limit = limit,
                      pgn_totalPages = \<lceil>real ?n / real_of_int limit\<rceil>\<rparr>\<rparr>"
    using assms tot by (simp add: get_api_posts_def Mem_IStorage_def Let_def)
  have ex: "pg_posts (Mem_getPaginatedPosts m 2 2) = [Mem_getAllPosts m ! 2, Mem_getAllPosts m ! 3] \<and>
            get_api_posts Mem_IStorage m (Some 2) (Some 2) =
              \<lparr>status = 200,
               body = PostsPage (withTags Mem_IStorage m [Mem_getAllPosts m ! 2, Mem_getAllPosts m ! 3])
                        \<lparr>pgn_total = 5, pgn_page = 2, pgn_limit = 2, pgn_totalPages = 3\<rparr>\<rparr>"
    if five: "?n = 5"
  proof -
    have all5: "length (Mem_getAllPosts m) = 5"
      using five by (simp add: Mem_getAllPosts_def)
    have p: "Mem_getPaginatedPosts m 2 2 =
               \<lparr>pg_posts = [Mem_getAllPosts m ! 2, Mem_getAllPosts m ! 3], pg_total = 5\<rparr>"
      using Mem_page[of 2 2 m] take_2_drop_2_of_5[OF all5] five by simp
    have tp: "\<lceil>real (5::nat) / real_of_int 2\<rceil> = 3" by (rule total_pages_5_2)
    show ?thesis
      using p tp by (simp add: get_api_posts_def Mem_IStorage_def Let_def or_default_def)
  qed
  have db: "\<exists>r. Db_getPaginatedPosts d page limit = Inr r \<and>
              length (pg_posts r) \<le> nat limit \<and> pg_total r = length (posts_table d) \<and>
              get_api_posts Db_IStorage d (Some page) (Some limit) =
                \<lparr>status = 200,
                 body = PostsPage (withTags Db_IStorage d (pg_posts r))
                          \<lparr>pgn_total = length (posts_table d), pgn_page = page,
                           pgn_limit = limit,
                           pgn_totalPages = \<lceil>real (length (posts_table d)) / real_of_int limit\<rceil>\<rparr>\<rparr>"
    using assms by (simp add: Db_page[OF assms] get_api_posts_def Db_IStorage_def Let_def)
  have dbex: "Db_getPaginatedPosts d 2 2 =
              Inr \<lparr>pg_posts = [Db_getAllPosts d ! 2, Db_getAllPosts d ! 3], pg_total = 5\<rparr>"
    if five: "length (posts_table d) = 5"
  proof -
    have "length (Db_getAllPosts d) = 5" using five by (simp add: Db_getAllPosts_def)
    then show ?thesis using Db_page[of 2 2 d] take_2_drop_2_of_5 five by simp
  qed
  have same: "mset (Mem_getAllPosts m) = mset (Map_values (posts m))"
    "mset (Db_getAllPosts d) = mset (posts_table d)"
    by (simp_all add: Mem_getAllPosts_def Db_getAllPosts_def)
  have newest: "sorted_wrt newer_first (Mem_getAllPosts m)" if "dated (Map_values (posts m))"
    using that by (simp add: Mem_getAllPosts_def sorted_Array_sort)
  have dnewest: "sorted_wrt newer_first (Db_getAllPosts d)" if "dated (posts_table d)"
    using that by (simp add: Db_getAllPosts_def sorted_orderBy)
  show ?thesis
    using len tot resp total_pages_bounds[OF assms(2), of ?n] ex db dbex same newest dnewest
    by blast
qed

theorem paginated_posts_page_and_total_witness:
  "(1::int) \<le> 2 \<and> length (Map_values (posts demo_mem)) = 5 \<and> length (posts_table demo_db) = 5 \<and>
   map post_id (Mem_getAllPosts demo_mem) = [3, 5, 2, 4, 1] \<and>
   map post_id (pg_posts (Mem_getPaginatedPosts demo_mem 2 2)) = [2, 4] \<and>
   pg_total (Mem_getPaginatedPosts demo_mem 2 2) = 5 \<and>
   get_api_posts Mem_IStorage demo_mem (Some 2) (Some 2) =
     \<lparr>status = 200,
      body = PostsPage (withTags Mem_IStorage demo_mem
                          [Mem_getAllPosts demo_mem ! 2, Mem_getAllPosts demo_mem ! 3])
               \<lparr>pgn_total = 5, pgn_page = 2, pgn_limit = 2, pgn_totalPages = 3\<rparr>\<rparr> \<and>
   Db_getPaginatedPosts demo_db 2 2 =
     Inr \<lparr>pg_posts = [Db_getAllPosts demo_db ! 2, Db_getAllPosts demo_db ! 3], pg_total = 5\<rparr>"
proof -
  have one: "(1::int) \<le> 2" by simp
  have m5: "length (Map_values (posts demo_mem)) = 5" by code_simp
  have d5: "length (posts_table demo_db) = 5" by code_simp
  have ids: "map post_id (Mem_getAllPosts demo_mem) = [3, 5, 2, 4, 1]" by code_simp
  have ids2: "map post_id [Mem_getAllPosts demo_mem ! 2, Mem_getAllPosts demo_mem ! 3] = [2, 4]"
    by code_simp
  show ?thesis
    using one m5 d5 ids ids2 paginated_posts_page_and_total[OF one one, of demo_mem demo_db]
    by simp
qed

text \<open>
  C1. On a store with five posts, page 2 of limit 2 should be the posts at positions 2 and
  3 of the posts in order of recency. The in-memory store breaks this once a post was
  created without \<^verbatim>\<open>publishedAt\<close> (the insert row may leave it out, and \<^verbatim>\<open>createPost\<close> does
  not fill it in): on the store of five posts created with the times 10, none, 20, 30 and
  40, \<^verbatim>\<open>getAllPosts\<close> returns the times 10, none, 40, 30, 20, and page 2 of limit 2 is the
  posts of times 40 and 30, the two newest posts of the store, where the third and the
  fourth newest are the posts of times 20 and 10. The page has 2 posts, \<open>total\<close> is 5 and
  \<^verbatim>\<open>GET /api/posts\<close> answers 200 with these two posts, as the rest of the claim says.
\<close>

theorem mem_undated_post_breaks_page:
  "Mem_reachable undated_five_mem \<and>
   map post_publishedAt (Map_values (posts undated_five_mem))
     = [Some 10, None, Some 20, Some 30, Some 40] \<and>
   map post_publishedAt (Mem_getAllPosts undated_five_mem)
     = [Some 10, None, Some 40, Some 30, Some 20] \<and>
   map post_publishedAt (pg_posts (Mem_getPaginatedPosts undated_five_mem 2 2))
     = [Some 40, Some 30] \<and>
   pg_total (Mem_getPaginatedPosts undated_five_mem 2 2) = 5 \<and>
   status (get_api_posts Mem_IStorage undated_five_mem (Some 2) (Some 2)) = 200 \<and>
   body (get_api_posts Mem_IStorage undated_five_mem (Some 2) (Some 2)) =
     PostsPage
       (withTags Mem_IStorage undated_five_mem
          (pg_posts (Mem_getPaginatedPosts undated_five_mem 2 2)))
       \<lparr>pgn_total = 5, pgn_page = 2, pgn_limit = 2, pgn_totalPages = 3\<rparr>"
proof -
  have r: "Mem_reachable undated_five_mem"
    unfolding undated_five_mem_def by (rule Mem_reachable_run) (rule Mem_reachable.fresh)
  have s: "map post_publishedAt (Map_values (posts undated_five_mem))
             = [Some 10, None, Some 20, Some 30, Some 40]"
    by code_simp
  have l: "map post_publishedAt (Mem_getAllPosts undated_five_mem)
             = [Some 10, None, Some 40, Some 30, Some 20]"
    by code_simp
  have p: "map post_publishedAt (pg_posts (Mem_getPaginatedPosts undated_five_mem 2 2))
             = [Some 40, Some 30]"
    by code_simp
  have t: "pg_total (Mem_getPaginatedPosts undated_five_mem 2 2) = 5"
    by code_simp
  have resp: "get_api_posts Mem_IStorage undated_five_mem (Some 2) (Some 2) =
           \<lparr>status = 200,
            body = PostsPage
                     (withTags Mem_IStorage undated_five_mem
                        (pg_posts (Mem_getPaginatedPosts undated_five_mem 2 2)))
                     \<lparr>pgn_total = 5, pgn_page = 2, pgn_limit = 2, pgn_totalPages = 3\<rparr>\<rparr>"
    using t total_pages_5_2 by (simp add: get_api_posts_def Mem_IStorage_def Let_def)
  show ?thesis using r s l p t resp by simp
qed

section \<open>The order of the post listings\<close>

lemma dated_filter: "dated ps \<Longrightarrow> dated (filter P ps)"
  by (simp add: dated_def)

lemma sorted_wrt_Array_slice:
  assumes "sorted_wrt R xs"
  shows "sorted_wrt R (Array_slice xs start stop)"
  using assms by (simp add: Array_slice_def Let_def sorted_wrt_take sorted_wrt_drop)

lemma sorted_orderBy_pairs:
  assumes "dated (map fst rs)"
  shows "sorted_wrt newer_first (map fst (orderBy (desc (\<lambda>r. post_publishedAt (fst r))) rs))"
proof -
  let ?cmp = "desc (\<lambda>r. post_publishedAt (fst r))"
  let ?R = "\<lambda>a b. newer_first (fst a) (fst b)"
  have dec: "SortCompare ?cmp x y \<le> 0 \<longleftrightarrow> ?R x y"
    if "post_publishedAt (fst x) \<noteq> None" "post_publishedAt (fst y) \<noteq> None" for x y :: "Post \<times> 'a"
    using that by (auto simp: SortCompare_def desc_def newer_first_def split: if_splits)
  have tot: "?R y x" if "\<not> ?R x y"
    "post_publishedAt (fst x) \<noteq> None" "post_publishedAt (fst y) \<noteq> None" for x y :: "Post \<times> 'a"
    using that by (auto simp: newer_first_def)
  have "sorted_wrt ?R (orderBy ?cmp rs)"
    using assms
  proof (induction rs)
    case Nil
    then show ?case by (simp add: orderBy_def)
  next
    case (Cons r rs)
    have ih: "sorted_wrt ?R (orderBy ?cmp rs)" using Cons by (simp add: dated_def)
    have d: "post_publishedAt (fst r) \<noteq> None"
      "\<And>y. y \<in> set rs \<Longrightarrow> post_publishedAt (fst y) \<noteq> None"
      using Cons.prems by (auto simp: dated_def)
    have "sorted_wrt ?R (sort_insert ?cmp r (orderBy ?cmp rs))"
    proof (rule sorted_wrt_sort_insert[OF ih])
      fix y assume "y \<in> set (orderBy ?cmp rs)" "SortCompare ?cmp r y \<le> 0"
      then show "?R r y" using dec[of r y] d by simp
    next
      fix y assume "y \<in> set (orderBy ?cmp rs)" "\<not> SortCompare ?cmp r y \<le> 0"
      then show "?R y r" using dec[of r y] tot[of r y] d by simp
    next
      fix y z assume "?R r y" "?R y z"
      then show "?R r z" by (rule newer_first_trans)
    qed
    then show ?case by (simp add: orderBy_def)
  qed
  then show ?thesis by (simp add: sorted_wrt_map)
qed

lemma dated_join:
  assumes "dated ps"
  shows "dated (map fst (arrange rank (filter Q (innerJoin ps pts on))))"
  using assms by (auto simp: dated_def innerJoin_def)

text \<open>
  In a store whose posts all carry their \<^verbatim>\<open>publishedAt\<close>, every list of posts returned by
  \<^verbatim>\<open>getAllPosts\<close>, \<^verbatim>\<open>getPaginatedPosts\<close>, \<^verbatim>\<open>getPostsByTagId\<close> and \<^verbatim>\<open>getPostsByTagSlug\<close>
  is in non-increasing order of \<^verbatim>\<open>publishedAt\<close>, in the in-memory store and in the database.
\<close>

theorem post_lists_newest_first:
  assumes "dated (Map_values (posts m))" and "dated (posts_table d)"
  shows "sorted_wrt newer_first (Mem_getAllPosts m) \<and>
         sorted_wrt newer_first (pg_posts (Mem_getPaginatedPosts m page limit)) \<and>
         sorted_wrt newer_first (Mem_getPostsByTagId m tagId) \<and>
         sorted_wrt newer_first (Mem_getPostsByTagSlug m slug) \<and>
         sorted_wrt newer_first (Db_getAllPosts d) \<and>
         (case Db_getPaginatedPosts d page limit of
            Inl e \<Rightarrow> True
          | Inr r \<Rightarrow> sorted_wrt newer_first (pg_posts r)) \<and>
         sorted_wrt newer_first (Db_getPostsByTagId d tagId) \<and>
         sorted_wrt newer_first (Db_getPostsByTagSlug d slug)"
proof -
  have all: "sorted_wrt newer_first (Mem_getAllPosts m)"
    using assms(1) by (simp add: Mem_getAllPosts_def sorted_Array_sort)
  have pg: "sorted_wrt newer_first (pg_posts (Mem_getPaginatedPosts m page limit))"
    using all by (simp add: Mem_getPaginatedPosts_def Let_def sorted_wrt_Array_slice)
  have byid: "sorted_wrt newer_first (Mem_getPostsByTagId m t)" for t
    using assms(1) by (simp add: Mem_getPostsByTagId_def Let_def sorted_Array_sort dated_filter)
  have byslug: "sorted_wrt newer_first (Mem_getPostsByTagSlug m slug)"
    using byid by (simp add: Mem_getPostsByTagSlug_def split: option.splits)
  have dall: "sorted_wrt newer_first (Db_getAllPosts d)"
    using assms(2) by (simp add: Db_getAllPosts_def sorted_orderBy)
  have dpg: "(case Db_getPaginatedPosts d page limit of
            Inl e \<Rightarrow> True
          | Inr r \<Rightarrow> sorted_wrt newer_first (pg_posts r))"
    using dall
    by (simp add: Db_getPaginatedPosts_def limit_offset_def Let_def Db_getAllPosts_def
        sorted_wrt_take sorted_wrt_drop)
  have dbyid: "sorted_wrt newer_first (Db_getPostsByTagId d t)" for t
    unfolding Db_getPostsByTagId_def
    by (rule sorted_orderBy_pairs) (rule dated_join[OF assms(2)])
  have dbyslug: "sorted_wrt newer_first (Db_getPostsByTagSlug d slug)"
    using dbyid by (simp add: Db_getPostsByTagSlug_def split: option.splits)
  show ?thesis using all pg byid byslug dall dpg dbyid dbyslug by simp
qed


theorem post_lists_newest_first_witness:
  "dated (Map_values (posts demo_mem)) \<and> dated (posts_table demo_db) \<and>
   map post_publishedAt (Mem_getAllPosts demo_mem) = [Some 50, Some 40, Some 30, Some 20, Some 10] \<and>
   sorted_wrt newer_first (Mem_getAllPosts demo_mem) \<and>
   sorted_wrt newer_first (pg_posts (Mem_getPaginatedPosts demo_mem 2 2)) \<and>
   sorted_wrt newer_first (Db_getAllPosts demo_db)"
proof -
  have a: "dated (Map_values (posts demo_mem))" by code_simp
  have b: "dated (posts_table demo_db)" by code_simp
  have c: "map post_publishedAt (Mem_getAllPosts demo_mem)
             = [Some 50, Some 40, Some 30, Some 20, Some 10]" by code_simp
  show ?thesis
    using a b c post_lists_newest_first[OF a b, of 2 2 1 "''react''"] by simp
qed

text \<open>
  C6. Every list of posts that a store returns should be in non-increasing order of
  \<^verbatim>\<open>publishedAt\<close>, in every state of the store. The in-memory store breaks this once a post
  was created without \<^verbatim>\<open>publishedAt\<close> (the insert row may leave it out, and \<^verbatim>\<open>createPost\<close>
  does not fill it in): the comparator gives \<^verbatim>\<open>NaN\<close> against that post, and \<^verbatim>\<open>getAllPosts\<close>
  returns the post of time 10 before the post of time 20.
\<close>

theorem mem_undated_post_breaks_order:
  "Mem_reachable undated_mem \<and>
   map post_publishedAt (Mem_getAllPosts undated_mem) = [Some 10, None, Some 20] \<and>
   \<not> sorted_wrt newer_first (Mem_getAllPosts undated_mem)"
proof -
  have r: "Mem_reachable undated_mem"
    unfolding undated_mem_def by (rule Mem_reachable_run) (rule Mem_reachable.fresh)
  have l: "map post_publishedAt (Mem_getAllPosts undated_mem) = [Some 10, None, Some 20]"
    by code_simp
  have "\<not> sorted_wrt newer_first (Mem_getAllPosts undated_mem)"
    by code_simp
  then show ?thesis using r l by simp
qed

section \<open>The featured post\<close>

lemma sorted_head_first:
  assumes "sorted_wrt newer_first xs" "dated xs" "xs \<noteq> []"
  shows "\<forall>q \<in> set xs. newer_first (xs ! 0) q"
proof -
  obtain x rest where xs: "xs = x # rest" using assms(3) by (cases xs) auto
  have "newer_first x x" using assms(2) xs by (auto simp: dated_def newer_first_def)
  then show ?thesis using assms(1) xs by auto
qed

lemma first_row_take_1: "first_row (take 1 xs) = (if 0 < length xs then Some (xs ! 0) else None)"
  by (cases xs) (auto simp: first_row_def)

text \<open>
  In a non-empty store whose posts all carry their \<^verbatim>\<open>publishedAt\<close>,
  \<^verbatim>\<open>getFeaturedPost\<close> returns the first post of \<^verbatim>\<open>getAllPosts\<close>, a stored post that is at least
  as recent as every stored post, and \<^verbatim>\<open>GET /api/posts/featured\<close> answers 200 with it. In an
  empty store \<^verbatim>\<open>getFeaturedPost\<close> returns no post and the endpoint answers 404. Both hold in
  the in-memory store and in the database.
\<close>

theorem featured_post_is_newest:
  assumes "dated (Map_values (posts m))" and "dated (posts_table d)"
  shows "(Map_values (posts m) \<noteq> [] \<longrightarrow>
            (\<exists>p. Mem_getFeaturedPost m = Some p \<and> p = Mem_getAllPosts m ! 0 \<and>
                 p \<in> set (Map_values (posts m)) \<and>
                 (\<forall>q \<in> set (Map_values (posts m)). newer_first p q) \<and>
                 get_api_posts_featured Mem_IStorage m =
                   \<lparr>status = 200, body = PostJson (p, Mem_getTagsByPostId m (post_id p))\<rparr>)) \<and>
         (Map_values (posts m) = [] \<longrightarrow>
            Mem_getFeaturedPost m = None \<and>
            get_api_posts_featured Mem_IStorage m =
              \<lparr>status = 404, body = Message ''No featured post found''\<rparr>) \<and>
         (posts_table d \<noteq> [] \<longrightarrow>
            (\<exists>p. Db_getFeaturedPost d = Some p \<and> p = Db_getAllPosts d ! 0 \<and>
                 p \<in> set (posts_table d) \<and>
                 (\<forall>q \<in> set (posts_table d). newer_first p q) \<and>
                 get_api_posts_featured Db_IStorage d =
                   \<lparr>status = 200, body = PostJson (p, Db_getTagsByPostId d (post_id p))\<rparr>)) \<and>
         (posts_table d = [] \<longrightarrow>
            Db_getFeaturedPost d = None \<and>
            get_api_posts_featured Db_IStorage d =
              \<lparr>status = 404, body = Message ''No featured post found''\<rparr>)"
proof -
  let ?all = "Mem_getAllPosts m"
  have set_all: "set ?all = set (Map_values (posts m))" and len_all: "length ?all = length (Map_values (posts m))"
    by (simp_all add: Mem_getAllPosts_def)
  have sorted: "sorted_wrt newer_first ?all"
    using assms(1) by (simp add: Mem_getAllPosts_def sorted_Array_sort)
  have dated_all: "dated ?all" using assms(1) set_all by (simp add: dated_def)
  have m1: "\<exists>p. Mem_getFeaturedPost m = Some p \<and> p = ?all ! 0 \<and>
                 p \<in> set (Map_values (posts m)) \<and>
                 (\<forall>q \<in> set (Map_values (posts m)). newer_first p q) \<and>
                 get_api_posts_featured Mem_IStorage m =
                   \<lparr>status = 200, body = PostJson (p, Mem_getTagsByPostId m (post_id p))\<rparr>"
    if ne: "Map_values (posts m) \<noteq> []"
  proof -
    have ne': "?all \<noteq> []" using ne len_all by (metis length_0_conv)
    then have pos: "0 < length ?all" by simp
    have f: "Mem_getFeaturedPost m = Some (?all ! 0)"
      using pos by (simp add: Mem_getFeaturedPost_def Let_def)
    have mem: "?all ! 0 \<in> set (Map_values (posts m))"
      using pos set_all nth_mem by blast
    have top: "\<forall>q \<in> set (Map_values (posts m)). newer_first (?all ! 0) q"
      using sorted_head_first[OF sorted dated_all ne'] set_all by simp
    show ?thesis
      using f mem top by (simp add: get_api_posts_featured_def Mem_IStorage_def)
  qed
  have m0: "Mem_getFeaturedPost m = None \<and>
            get_api_posts_featured Mem_IStorage m =
              \<lparr>status = 404, body = Message ''No featured post found''\<rparr>"
    if "Map_values (posts m) = []"
    using that by (simp add: Mem_getFeaturedPost_def Mem_getAllPosts_def Let_def
        get_api_posts_featured_def Mem_IStorage_def)
  let ?dall = "Db_getAllPosts d"
  have dset: "set ?dall = set (posts_table d)" and dlen: "length ?dall = length (posts_table d)"
    by (simp_all add: Db_getAllPosts_def)
  have dsorted: "sorted_wrt newer_first ?dall"
    using assms(2) by (simp add: Db_getAllPosts_def sorted_orderBy)
  have ddated: "dated ?dall" using assms(2) dset by (simp add: dated_def)
  have dfeat: "Db_getFeaturedPost d = (if 0 < length ?dall then Some (?dall ! 0) else None)"
    unfolding Db_getFeaturedPost_def Db_getAllPosts_def by (rule first_row_take_1)
  have d1: "\<exists>p. Db_getFeaturedPost d = Some p \<and> p = ?dall ! 0 \<and>
                 p \<in> set (posts_table d) \<and>
                 (\<forall>q \<in> set (posts_table d). newer_first p q) \<and>
                 get_api_posts_featured Db_IStorage d =
                   \<lparr>status = 200, body = PostJson (p, Db_getTagsByPostId d (post_id p))\<rparr>"
    if ne: "posts_table d \<noteq> []"
  proof -
    have ne': "?dall \<noteq> []" using ne dlen by (metis length_0_conv)
    then have pos: "0 < length ?dall" by simp
    have f: "Db_getFeaturedPost d = Some (?dall ! 0)" using pos dfeat by simp
    have mem: "?dall ! 0 \<in> set (posts_table d)" using pos dset nth_mem by blast
    have top: "\<forall>q \<in> set (posts_table d). newer_first (?dall ! 0) q"
      using sorted_head_first[OF dsorted ddated ne'] dset by simp
    show ?thesis
      using f mem top by (simp add: get_api_posts_featured_def Db_IStorage_def)
  qed
  have d0: "Db_getFeaturedPost d = None \<and>
            get_api_posts_featured Db_IStorage d =
              \<lparr>status = 404, body = Message ''No featured post found''\<rparr>"
    if "posts_table d = []"
    using that dfeat dlen by (simp add: get_api_posts_featured_def Db_IStorage_def)
  show ?thesis using m1 m0 d1 d0 by blast
qed

theorem featured_post_is_newest_witness:
  "dated (Map_values (posts demo_mem)) \<and> dated (posts_table demo_db) \<and>
   Map_values (posts demo_mem) \<noteq> [] \<and> posts_table demo_db \<noteq> [] \<and>
   Map_values (posts MemStorage_new) = [] \<and> posts_table Database_empty = [] \<and>
   map_option post_id (Mem_getFeaturedPost demo_mem) = Some 3 \<and>
   map_option post_id (Db_getFeaturedPost demo_db) = Some 3 \<and>
   status (get_api_posts_featured Mem_IStorage demo_mem) = 200 \<and>
   status (get_api_posts_featured Db_IStorage demo_db) = 200 \<and>
   get_api_posts_featured Mem_IStorage MemStorage_new =
     \<lparr>status = 404, body = Message ''No featured post found''\<rparr> \<and>
   get_api_posts_featured Db_IStorage Database_empty =
     \<lparr>status = 404, body = Message ''No featured post found''\<rparr>"
proof -
  have a: "dated (Map_values (posts demo_mem))" by code_simp
  have b: "dated (posts_table demo_db)" by code_simp
  have a0: "dated (Map_values (posts MemStorage_new))" by code_simp
  have b0: "dated (posts_table Database_empty)" by code_simp
  have c: "Map_values (posts demo_mem) \<noteq> []" by code_simp
  have e: "posts_table demo_db \<noteq> []" by code_simp
  have c0: "Map_values (posts MemStorage_new) = []" by code_simp
  have e0: "posts_table Database_empty = []" by code_simp
  have f: "post_id (Mem_getAllPosts demo_mem ! 0) = 3" by code_simp
  have g: "post_id (Db_getAllPosts demo_db ! 0) = 3" by code_simp
  show ?thesis
    using a b c e c0 e0 f g featured_post_is_newest[OF a b] featured_post_is_newest[OF a0 b0]
    by auto
qed

text \<open>
  C8. The featured post of a non-empty store should be a post whose \<^verbatim>\<open>publishedAt\<close> is
  maximal among all posts. The in-memory store breaks this once a post was created
  without \<^verbatim>\<open>publishedAt\<close>: \<^verbatim>\<open>getFeaturedPost\<close> returns the post of time 10 although a post
  of time 20 is stored.
\<close>

theorem mem_undated_post_featured:
  "Mem_reachable undated_mem \<and>
   map_option post_publishedAt (Mem_getFeaturedPost undated_mem) = Some (Some 10) \<and>
   Some 20 \<in> set (map post_publishedAt (Map_values (posts undated_mem)))"
proof -
  have r: "Mem_reachable undated_mem"
    unfolding undated_mem_def by (rule Mem_reachable_run) (rule Mem_reachable.fresh)
  have f: "map_option post_publishedAt (Mem_getFeaturedPost undated_mem) = Some (Some 10)"
    by code_simp
  have l: "Some 20 \<in> set (map post_publishedAt (Map_values (posts undated_mem)))"
    by code_simp
  show ?thesis using r f l by simp
qed

section \<open>Subscribing\<close>

lemma find_Some_mem: "find P xs = Some x \<Longrightarrow> x \<in> set xs \<and> P x"
  by (auto simp: find_Some_iff)




section \<open>Tags of a post\<close>

lemma one_row_per_id:
  assumes "entries_ok ident m n" "k \<in> set (map fst m)"
  shows "length (filter (\<lambda>v. ident v = k) (Map_values m)) = 1"
proof -
  have ids: "map ident (Map_values m) = map fst m"
    using assms(1) by (auto simp: entries_ok_def Map_values_def)
  have d: "distinct (map fst m)" using assms(1) by (simp add: entries_ok_def)
  have "length (filter (\<lambda>v. ident v = k) (Map_values m))
          = length (filter (\<lambda>x. x = k) (map ident (Map_values m)))"
    by (simp add: filter_map comp_def)
  also have "\<dots> = length (filter (\<lambda>x. x = k) (map fst m))" by (simp add: ids)
  also have "\<dots> = card ({x. x = k} \<inter> set (map fst m))"
    using d by (rule distinct_length_filter)
  also have "{x. x = k} \<inter> set (map fst m) = {k}" using assms(2) by auto
  finally show ?thesis by simp
qed

lemma Map_delete_fresh:
  assumes "k \<notin> set (map fst m)"
  shows "Map_delete (m @ [(k, v)]) k = (True, m)"
proof -
  have "filter (\<lambda>e. fst e \<noteq> k) m = m" using assms by (auto intro: filter_True)
  then show ?thesis by (simp add: Map_delete_def)
qed

lemma find_append_last:
  assumes "\<forall>x \<in> set xs. \<not> P x" "P y"
  shows "find P (xs @ [y]) = Some y"
  using assms by (induction xs) auto

text \<open>
  C5, as amended. In every state of the in-memory store and for every tag id \<open>t\<close> of the
  store: after \<^verbatim>\<open>addTagToPost({postId: p, tagId: t})\<close> the tags of post \<open>p\<close> contain the tag
  \<open>t\<close> exactly once; and when \<open>p\<close> did not have the tag \<open>t\<close> before, a subsequent
  \<^verbatim>\<open>removeTagFromPost(p, t)\<close> succeeds and the tags of \<open>p\<close> no longer contain \<open>t\<close>.
\<close>

theorem tag_added_once_then_removed:
  assumes "Mem_reachable m" and "t \<in> set (map fst (tags m))"
  shows "length (filter (\<lambda>tag. tag_id tag = t)
            (Mem_getTagsByPostId (snd (Mem_addTagToPost m \<lparr>ipt_postId = p, ipt_tagId = t\<rparr>)) p)) = 1 \<and>
         ((p, t) \<notin> set (pairs (Map_values (postTags m))) \<longrightarrow>
            fst (Mem_removeTagFromPost (snd (Mem_addTagToPost m \<lparr>ipt_postId = p, ipt_tagId = t\<rparr>)) p t) \<and>
            t \<notin> set (map tag_id
                  (Mem_getTagsByPostId
                     (snd (Mem_removeTagFromPost
                             (snd (Mem_addTagToPost m \<lparr>ipt_postId = p, ipt_tagId = t\<rparr>)) p t)) p)))"
proof -
  let ?n = "currentPostTagId m"
  let ?row = "\<lparr>pt_id = ?n, pt_postId = p, pt_tagId = t\<rparr>"
  let ?m1 = "snd (Mem_addTagToPost m \<lparr>ipt_postId = p, ipt_tagId = t\<rparr>)"
  have wf: "Mem_wf m" using assms(1) by (rule Mem_reachable_wf)
  have wpt: "entries_ok pt_id (postTags m) ?n" and wtag: "entries_ok tag_id (tags m) (currentTagId m)"
    using wf by (simp_all add: Mem_wf_def)
  have fresh: "?n \<notin> set (map fst (postTags m))" using wpt by (auto simp: entries_ok_def)
  have app: "Map_set (postTags m) ?n ?row = postTags m @ [(?n, ?row)]"
    using entries_ok_fresh(1)[OF wpt, of ?row] by simp
  have m1: "postTags ?m1 = postTags m @ [(?n, ?row)]" "tags ?m1 = tags m"
    using app by (simp_all add: Mem_addTagToPost_def Let_def)
  have "filter (\<lambda>tag. tag_id tag = t) (Mem_getTagsByPostId ?m1 p)
          = filter (\<lambda>tag. tag_id tag = t) (Map_values (tags m))"
    by (auto simp: Mem_getTagsByPostId_def Let_def m1 Map_values_def intro!: filter_cong)
  then have once: "length (filter (\<lambda>tag. tag_id tag = t) (Mem_getTagsByPostId ?m1 p)) = 1"
    using one_row_per_id[OF wtag assms(2)] by simp
  have gone: "fst (Mem_removeTagFromPost ?m1 p t) \<and>
            t \<notin> set (map tag_id (Mem_getTagsByPostId (snd (Mem_removeTagFromPost ?m1 p t)) p))"
    if new: "(p, t) \<notin> set (pairs (Map_values (postTags m)))"
  proof -
    have nohit: "\<forall>pt \<in> set (Map_values (postTags m)). \<not> (pt_postId pt = p \<and> pt_tagId pt = t)"
      using new by (auto simp: pairs_def)
    have f: "find (\<lambda>pt. pt_postId pt = p \<and> pt_tagId pt = t) (Map_values (postTags ?m1)) = Some ?row"
      using find_append_last[OF nohit, of ?row] by (simp add: m1 Map_values_def)
    have rm: "Mem_removeTagFromPost ?m1 p t = (True, ?m1\<lparr>postTags := postTags m\<rparr>)"
      using f Map_delete_fresh[OF fresh, of ?row]
      by (simp add: Mem_removeTagFromPost_def m1)
    have "t \<notin> set (map tag_id (Mem_getTagsByPostId (?m1\<lparr>postTags := postTags m\<rparr>) p))"
      using nohit by (auto simp: Mem_getTagsByPostId_def Let_def)
    then show ?thesis using rm by simp
  qed
  show ?thesis using once gone by blast
qed


theorem tag_added_once_then_removed_witness:
  "Mem_reachable untagged_mem \<and> 1 \<in> set (map fst (tags untagged_mem)) \<and>
   1 \<in> set (map fst (posts untagged_mem)) \<and>
   (1, 1) \<notin> set (pairs (Map_values (postTags untagged_mem))) \<and>
   map tag_id (Mem_getTagsByPostId
     (snd (Mem_addTagToPost untagged_mem \<lparr>ipt_postId = 1, ipt_tagId = 1\<rparr>)) 1) = [1] \<and>
   length (filter (\<lambda>tag. tag_id tag = 1)
     (Mem_getTagsByPostId
        (snd (Mem_addTagToPost untagged_mem \<lparr>ipt_postId = 1, ipt_tagId = 1\<rparr>)) 1)) = 1 \<and>
   fst (Mem_removeTagFromPost
          (snd (Mem_addTagToPost untagged_mem \<lparr>ipt_postId = 1, ipt_tagId = 1\<rparr>)) 1 1) \<and>
   1 \<notin> set (map tag_id
         (Mem_getTagsByPostId
            (snd (Mem_removeTagFromPost
                    (snd (Mem_addTagToPost untagged_mem \<lparr>ipt_postId = 1, ipt_tagId = 1\<rparr>)) 1 1))
            1))"
proof -
  have r: "Mem_reachable untagged_mem"
    unfolding untagged_mem_def by (rule Mem_reachable_run) (rule Mem_reachable.fresh)
  have t: "1 \<in> set (map fst (tags untagged_mem))" by code_simp
  have p: "1 \<in> set (map fst (posts untagged_mem))" by code_simp
  have n: "(1, 1) \<notin> set (pairs (Map_values (postTags untagged_mem)))" by code_simp
  have l: "map tag_id (Mem_getTagsByPostId
     (snd (Mem_addTagToPost untagged_mem \<lparr>ipt_postId = 1, ipt_tagId = 1\<rparr>)) 1) = [1]"
    by code_simp
  show ?thesis
    using r t p n l tag_added_once_then_removed[OF r t, of 1] by simp
qed

text \<open>
  The claim as stated, for every store state, fails where post 1 already has tag 1: the tag
  is added a second time, \<^verbatim>\<open>removeTagFromPost\<close> deletes the first of the two rows only, and
  the tags of the post still contain the tag.
\<close>

theorem tag_added_once_then_removed_counterexample:
  "Mem_reachable tagged_mem \<and>
   1 \<in> set (map fst (posts tagged_mem)) \<and> 1 \<in> set (map fst (tags tagged_mem)) \<and>
   fst (Mem_removeTagFromPost
          (snd (Mem_addTagToPost tagged_mem \<lparr>ipt_postId = 1, ipt_tagId = 1\<rparr>)) 1 1) \<and>
   map tag_id
     (Mem_getTagsByPostId
        (snd (Mem_removeTagFromPost
                (snd (Mem_addTagToPost tagged_mem \<lparr>ipt_postId = 1, ipt_tagId = 1\<rparr>)) 1 1))
        1) = [1]"
proof -
  have r: "Mem_reachable tagged_mem"
    unfolding tagged_mem_def by (rule Mem_reachable_run) (rule Mem_reachable.fresh)
  have a: "1 \<in> set (map fst (posts tagged_mem))" by code_simp
  have b: "1 \<in> set (map fst (tags tagged_mem))" by code_simp
  have c: "fst (Mem_removeTagFromPost
          (snd (Mem_addTagToPost tagged_mem \<lparr>ipt_postId = 1, ipt_tagId = 1\<rparr>)) 1 1)"
    by code_simp
  have e: "map tag_id
     (Mem_getTagsByPostId
        (snd (Mem_removeTagFromPost
                (snd (Mem_addTagToPost tagged_mem \<lparr>ipt_postId = 1, ipt_tagId = 1\<rparr>)) 1 1))
        1) = [1]"
    by code_simp
  show ?thesis using r a b c e by simp
qed

section \<open>Deleting a post\<close>

text \<open>
  The database store deletes the post-tag rows of a post before the post: afterwards no
  row refers to the post, and its tags are the empty list.
\<close>

lemma db_deletePost_removes_post_tags:
  "i \<notin> set (map pt_postId (post_tags_table (snd (Db_deletePost d i)))) \<and>
   Db_getTagsByPostId (snd (Db_deletePost d i)) i = []"
proof -
  let ?d = "snd (Db_deletePost d i)"
  have gone: "i \<notin> set (map pt_postId (post_tags_table ?d))"
    by (auto simp: Db_deletePost_def Let_def)
  then have "filter (\<lambda>r. pt_postId (snd r) = i)
               (innerJoin (tags_table ?d) (post_tags_table ?d) (\<lambda>t pt. tag_id t = pt_tagId pt))
             = []"
    by (auto simp: innerJoin_def filter_empty_conv)
  then show ?thesis using gone by (simp add: Db_getTagsByPostId_def)
qed

text \<open>
  C2. After a successful \<^verbatim>\<open>deletePost(id)\<close> no post-tag row should refer to the post, and
  \<^verbatim>\<open>getTagsByPostId(id)\<close> should return the empty list, in both stores. The in-memory store
  does not do this: on the store of one post with one tag, \<^verbatim>\<open>deletePost(1)\<close> returns true
  and the post is gone, but its post-tag row is still there and \<^verbatim>\<open>getTagsByPostId(1)\<close>
  still returns the tag.
\<close>

theorem mem_deletePost_keeps_post_tags:
  "1 \<in> set (map fst (posts tagged_mem)) \<and>
   fst (Mem_deletePost tagged_mem 1) \<and>
   Map_get (posts (snd (Mem_deletePost tagged_mem 1))) 1 = None \<and>
   map pt_postId (Map_values (postTags (snd (Mem_deletePost tagged_mem 1)))) = [1] \<and>
   map tag_id (Mem_getTagsByPostId (snd (Mem_deletePost tagged_mem 1)) 1) = [1]"
  by code_simp

section \<open>Creating a row with a key that is taken\<close>

text \<open>
  The database store rejects a post whose slug another post has, and stores nothing; the
  failure names the unique key, unless the timestamp of the row was refused first.
\<close>

lemma db_createPost_rejects_duplicate_slug:
  "ip_slug p \<in> set (map post_slug (posts_table d)) \<Longrightarrow>
     fst (Db_createPost d now p) =
       Inl (if refused_timestamp (ip_publishedAt p) then TimestampOutOfRange
            else UniqueViolation ''posts_slug_unique'') \<and>
     posts_table (snd (Db_createPost d now p)) = posts_table d"
  by (simp add: Db_createPost_def Let_def)

text \<open>
  C9. A creation should fail exactly when the insert would break a uniqueness constraint;
  in particular \<^verbatim>\<open>createPost\<close> with the slug of an existing post should not succeed with a
  second row of that slug. The in-memory store does not do this: after a post of slug
  \<^verbatim>\<open>a\<close>, a second \<^verbatim>\<open>createPost\<close> with slug \<^verbatim>\<open>a\<close> returns a row of that slug, and the store
  holds two posts of slug \<^verbatim>\<open>a\<close>.
\<close>

theorem mem_createPost_accepts_duplicate_slug:
  "map post_slug (Map_values (posts (snd (Mem_createPost MemStorage_new (demo_post ''a'' 10))))) = [''a''] \<and>
   post_slug (fst (Mem_createPost (snd (Mem_createPost MemStorage_new (demo_post ''a'' 10)))
                     (demo_post ''a'' 20))) = ''a'' \<and>
   map post_slug
     (Map_values (posts (snd (Mem_createPost (snd (Mem_createPost MemStorage_new (demo_post ''a'' 10)))
                                 (demo_post ''a'' 20))))) = [''a'', ''a'']"
  by code_simp

section \<open>The RSS feed\<close>

lemma foldl_append_concat: "foldl (\<lambda>acc x. acc @ f x) init xs = init @ concat (map f xs)"
  by (induction xs arbitrary: init) auto

text \<open>
  The document is the head, one item block per post of \<^verbatim>\<open>getAllPosts\<close> in that order, and
  the foot.
\<close>

lemma rss_document:
  "get_rss_xml st s env_BASE_URL host now =
     \<lparr>status = 200,
      body = Xml (rss_head (base_url env_BASE_URL host) now @
                  concat (map (rss_item (base_url env_BASE_URL host))
                            (withTags st s (getAllPosts st s))) @
                  rss_foot)\<rparr>"
  by (simp add: get_rss_xml_def Let_def foldl_append_concat)

text \<open>
  C7. The feed should hold exactly one \<^verbatim>\<open><item>\<close> element per post of \<^verbatim>\<open>getAllPosts\<close>. The
  handler writes the title into the document as it is (only the excerpt is wrapped in
  CDATA), so a title that carries markup adds elements: for the one post titled
  \<^verbatim>\<open>A</title></item><item><title>B\<close> the document opens and closes two \<^verbatim>\<open><item>\<close> elements.
\<close>

theorem rss_markup_in_title_adds_an_item:
  "length (Db_getAllPosts markup_db) = 1 \<and>
   map post_title (Db_getAllPosts markup_db) = [''A</title></item><item><title>B''] \<and>
   occurrences ''<item>''
     (xml_of (get_rss_xml Db_IStorage markup_db (Some ''https://blog.example'') None 1686787200000)) = 2 \<and>
   occurrences ''</item>''
     (xml_of (get_rss_xml Db_IStorage markup_db (Some ''https://blog.example'') None 1686787200000)) = 2"
  by code_simp

section \<open>The two stores, side by side\<close>

subsection \<open>Maps against tables\<close>

lemma keys_ids:
  assumes "entries_ok ident mp n"
  shows "map fst mp = map ident (Map_values mp)"
  using assms by (auto simp: entries_ok_def Map_values_def)

lemma values_lookup:
  assumes "entries_ok ident mp n"
  shows "Map_get mp k = find (\<lambda>v. ident v = k) (Map_values mp)"
  using assms
proof (induction mp)
  case Nil
  then show ?case by (simp add: Map_get_def Map_values_def)
next
  case (Cons e mp)
  have "entries_ok ident mp n" using Cons.prems by (auto simp: entries_ok_def)
  then have ih: "Map_get mp k = find (\<lambda>v. ident v = k) (Map_values mp)" by (rule Cons.IH)
  have "ident (snd e) = fst e" using Cons.prems by (auto simp: entries_ok_def)
  then show ?case using ih by (cases e) (auto simp: Map_get_def Map_values_def)
qed

lemma values_set_fresh:
  assumes "entries_ok ident mp n" "ident v = n"
  shows "Map_values (Map_set mp n v) = Map_values mp @ [v]"
  using entries_ok_fresh(1)[OF assms] by (simp add: Map_values_def)

lemma values_set_present:
  assumes "entries_ok ident mp n" "k \<in> set (map fst mp)"
  shows "Map_values (Map_set mp k v) = map (\<lambda>p. if ident p = k then v else p) (Map_values mp)"
  using assms
proof (induction mp)
  case Nil
  then show ?case by simp
next
  case (Cons e mp)
  have ok: "entries_ok ident mp n" and ide: "ident (snd e) = fst e"
    and notin: "fst e \<notin> set (map fst mp)"
    using Cons.prems(1) by (auto simp: entries_ok_def)
  show ?case
  proof (cases "fst e = k")
    case True
    have "\<forall>p \<in> set (Map_values mp). ident p \<noteq> k"
      using notin True keys_ids[OF ok] by (metis (no_types, lifting) image_iff list.set_map)
    then have "map (\<lambda>p. if ident p = k then v else p) (Map_values mp) = Map_values mp"
      by (simp add: map_idI)
    then show ?thesis using True ide by (cases e) (simp add: Map_values_def)
  next
    case False
    then have "k \<in> set (map fst mp)" using Cons.prems(2) by auto
    then have "Map_values (Map_set mp k v)
                 = map (\<lambda>p. if ident p = k then v else p) (Map_values mp)"
      using Cons.IH ok by simp
    then show ?thesis using False ide by (cases e) (simp add: Map_values_def)
  qed
qed

lemma values_delete:
  assumes "entries_ok ident mp n"
  shows "fst (Map_delete mp k) = (k \<in> set (map ident (Map_values mp)))"
    and "Map_values (snd (Map_delete mp k)) = filter (\<lambda>v. ident v \<noteq> k) (Map_values mp)"
proof -
  show "fst (Map_delete mp k) = (k \<in> set (map ident (Map_values mp)))"
    using keys_ids[OF assms] by (simp add: Map_delete_def)
  have "\<forall>e \<in> set mp. ident (snd e) = fst e" using assms by (simp add: entries_ok_def)
  then have "filter ((\<lambda>v. ident v \<noteq> k) \<circ> snd) mp = filter (\<lambda>e. fst e \<noteq> k) mp"
    by (intro filter_cong) auto
  then show "Map_values (snd (Map_delete mp k)) = filter (\<lambda>v. ident v \<noteq> k) (Map_values mp)"
    by (simp add: Map_delete_def Map_values_def filter_map)
qed

lemma filter_other_key:
  assumes "distinct (map f xs)" "e \<in> set xs"
  shows "filter (\<lambda>x. f x \<noteq> f e) xs = filter (\<lambda>x. x \<noteq> e) xs"
proof -
  have "inj_on f (set xs)" using assms(1) by (simp add: distinct_map)
  then have "\<forall>x \<in> set xs. (f x \<noteq> f e) = (x \<noteq> e)" using assms(2) by (auto dest: inj_onD)
  then show ?thesis by (intro filter_cong) auto
qed

lemma join_filter:
  assumes "distinct (map (\<lambda>y. (kf y, gf y)) ys)"
  shows "map fst (filter (\<lambda>r. gf (snd r) = g) (innerJoin xs ys (\<lambda>x y. idf x = kf y)))
           = filter (\<lambda>x. idf x \<in> set (map kf (filter (\<lambda>y. gf y = g) ys))) xs"
proof (induction xs)
  case Nil
  then show ?case by (simp add: innerJoin_def)
next
  case (Cons x xs)
  let ?hits = "filter (\<lambda>y. (kf y, gf y) = (idf x, g)) ys"
  have row: "map fst (filter (\<lambda>r. gf (snd r) = g) (map (\<lambda>b. (x, b)) (filter (\<lambda>y. idf x = kf y) ys)))
               = map (\<lambda>y. x) ?hits"
    by (induction ys) auto
  have mem: "idf x \<in> set (map kf (filter (\<lambda>y. gf y = g) ys)) \<longleftrightarrow> ?hits \<noteq> []"
    by (force simp: filter_empty_conv)
  have one: "?hits = [] \<or> (\<exists>y. ?hits = [y])" using assms by (rule one_hit)
  have "map (\<lambda>y. x) ?hits = (if idf x \<in> set (map kf (filter (\<lambda>y. gf y = g) ys)) then [x] else [])"
    using one mem by auto
  then show ?case using Cons.IH row by (simp add: innerJoin_def)
qed

lemma distinct_swapped_pairs:
  "distinct (map (\<lambda>pt. (pt_tagId pt, pt_postId pt)) pts) = distinct (pairs pts)"
proof -
  have "map (\<lambda>pt. (pt_tagId pt, pt_postId pt)) pts = map prod.swap (pairs pts)"
    by (simp add: pairs_def)
  then show ?thesis by (simp add: distinct_map)
qed

subsection \<open>Reads\<close>

lemma Mem_IStorage_sel:
  "getUser Mem_IStorage = Mem_getUser"
  "getUserByUsername Mem_IStorage = Mem_getUserByUsername"
  "createUser Mem_IStorage = (\<lambda>s u. resolved (Mem_createUser s u))"
  "getAllPosts Mem_IStorage = Mem_getAllPosts"
  "getPostById Mem_IStorage = Mem_getPostById"
  "getPostBySlug Mem_IStorage = Mem_getPostBySlug"
  "createPost Mem_IStorage = (\<lambda>s now p. resolved (Mem_createPost s p))"
  "updatePost Mem_IStorage = (\<lambda>s i u. resolved (Mem_updatePost s i u))"
  "deletePost Mem_IStorage = (\<lambda>s i. resolved (Mem_deletePost s i))"
  "getFeaturedPost Mem_IStorage = Mem_getFeaturedPost"
  "getPaginatedPosts Mem_IStorage = (\<lambda>s page limit. Inr (Mem_getPaginatedPosts s page limit))"
  "getAllTags Mem_IStorage = Mem_getAllTags"
  "getTagById Mem_IStorage = Mem_getTagById"
  "getTagBySlug Mem_IStorage = Mem_getTagBySlug"
  "createTag Mem_IStorage = (\<lambda>s t. resolved (Mem_createTag s t))"
  "getPostsByTagId Mem_IStorage = Mem_getPostsByTagId"
  "getPostsByTagSlug Mem_IStorage = Mem_getPostsByTagSlug"
  "getTagsByPostId Mem_IStorage = Mem_getTagsByPostId"
  "addTagToPost Mem_IStorage = (\<lambda>s pt. resolved (Mem_addTagToPost s pt))"
  "removeTagFromPost Mem_IStorage = (\<lambda>s p t. resolved (Mem_removeTagFromPost s p t))"
  "createSubscriber Mem_IStorage = (\<lambda>s now e. resolved (Mem_createSubscriber s now e))"
  "getSubscriberByEmail Mem_IStorage = Mem_getSubscriberByEmail"
  "getAllSubscribers Mem_IStorage = Mem_getAllSubscribers"
  by (simp_all add: Mem_IStorage_def)

lemma Db_IStorage_sel:
  "getUser Db_IStorage = Db_getUser"
  "getUserByUsername Db_IStorage = Db_getUserByUsername"
  "createUser Db_IStorage = Db_createUser"
  "getAllPosts Db_IStorage = Db_getAllPosts"
  "getPostById Db_IStorage = Db_getPostById"
  "getPostBySlug Db_IStorage = Db_getPostBySlug"
  "createPost Db_IStorage = Db_createPost"
  "updatePost Db_IStorage = Db_updatePost"
  "deletePost Db_IStorage = (\<lambda>d i. resolved (Db_deletePost d i))"
  "getFeaturedPost Db_IStorage = Db_getFeaturedPost"
  "getPaginatedPosts Db_IStorage = Db_getPaginatedPosts"
  "getAllTags Db_IStorage = Db_getAllTags"
  "getTagById Db_IStorage = Db_getTagById"
  "getTagBySlug Db_IStorage = Db_getTagBySlug"
  "createTag Db_IStorage = Db_createTag"
  "getPostsByTagId Db_IStorage = Db_getPostsByTagId"
  "getPostsByTagSlug Db_IStorage = Db_getPostsByTagSlug"
  "getTagsByPostId Db_IStorage = Db_getTagsByPostId"
  "addTagToPost Db_IStorage = Db_addTagToPost"
  "removeTagFromPost Db_IStorage = (\<lambda>d p t. resolved (Db_removeTagFromPost d p t))"
  "createSubscriber Db_IStorage = Db_createSubscriber"
  "getSubscriberByEmail Db_IStorage = Db_getSubscriberByEmail"
  "getAllSubscribers Db_IStorage = Db_getAllSubscribers"
  by (simp_all add: Db_IStorage_def)

lemma correspondsD:
  assumes "corresponds m d"
  shows "entries_ok user_id (users m) (users_id_seq d)"
    and "entries_ok post_id (posts m) (posts_id_seq d)"
    and "entries_ok tag_id (tags m) (tags_id_seq d)"
    and "entries_ok pt_id (postTags m) (post_tags_id_seq d)"
    and "entries_ok sub_id (subscribers m) (subscribers_id_seq d)"
    and "Map_values (users m) = users_table d"
    and "Map_values (posts m) = posts_table d"
    and "Map_values (tags m) = tags_table d"
    and "Map_values (postTags m) = post_tags_table d"
    and "Map_values (subscribers m) = subscribers_table d"
    and "currentUserId m = users_id_seq d"
    and "currentPostId m = posts_id_seq d"
    and "currentTagId m = tags_id_seq d"
    and "currentPostTagId m = post_tags_id_seq d"
    and "currentSubscriberId m = subscribers_id_seq d"
    and "distinct (pairs (post_tags_table d))"
    and "dated (posts_table d)"
    and "distinct (map user_username (users_table d))"
    and "distinct (map post_slug (posts_table d))"
    and "distinct (map tag_name (tags_table d))"
    and "distinct (map tag_slug (tags_table d))"
    and "distinct (map sub_email (subscribers_table d))"
  using assms by (auto simp: corresponds_def Mem_wf_def)

text \<open>The rankings in force are no part of what the two stores hold.\<close>

lemma corresponds_row_order [simp]:
  "corresponds m (d\<lparr>row_order := pl\<rparr>) = corresponds m d"
  by (simp add: corresponds_def)

lemma distinct_ids:
  assumes "entries_ok ident mp n" "Map_values mp = tbl"
  shows "distinct (map ident tbl)"
  using assms keys_ids[OF assms(1)] by (simp add: entries_ok_def)

lemma lookup_in_table:
  assumes "entries_ok ident mp n" "Map_values mp = tbl"
  shows "Map_get mp k = first_row (filter (\<lambda>v. ident v = k) tbl)"
  using values_lookup[OF assms(1), of k] assms(2) by (simp add: first_row_filter)

lemma lookup_agrees:
  assumes "entries_ok ident mp n" "Map_values mp = tbl"
  shows "Map_get mp k = first_row (arrange rank (filter (\<lambda>v. ident v = k) tbl))"
  using values_lookup[OF assms(1), of k] assms(2) distinct_ids[OF assms]
  by (simp add: first_row_distinct)

text \<open>A read of one row by its id or by a unique column returns the same on both sides.\<close>

lemma reads_agree:
  assumes c: "corresponds m d"
  shows "Mem_getUser m i = Db_getUser d i"
    and "Mem_getUserByUsername m n = Db_getUserByUsername d n"
    and "Mem_getPostById m i = Db_getPostById d i"
    and "Mem_getPostBySlug m g = Db_getPostBySlug d g"
    and "Mem_getTagById m i = Db_getTagById d i"
    and "Mem_getTagBySlug m g = Db_getTagBySlug d g"
    and "Mem_getSubscriberByEmail m e = Db_getSubscriberByEmail d e"
proof -
  note D = correspondsD[OF c]
  show "Mem_getUser m i = Db_getUser d i"
    unfolding Mem_getUser_def Db_getUser_def by (rule lookup_agrees[OF D(1) D(6)])
  show "Mem_getPostById m i = Db_getPostById d i"
    unfolding Mem_getPostById_def Db_getPostById_def by (rule lookup_agrees[OF D(2) D(7)])
  show "Mem_getTagById m i = Db_getTagById d i"
    unfolding Mem_getTagById_def Db_getTagById_def by (rule lookup_agrees[OF D(3) D(8)])
  show "Mem_getUserByUsername m n = Db_getUserByUsername d n"
    by (simp add: Mem_getUserByUsername_def Db_getUserByUsername_def D(6)
        first_row_distinct[OF D(18)])
  show "Mem_getPostBySlug m g = Db_getPostBySlug d g"
    by (simp add: Mem_getPostBySlug_def Db_getPostBySlug_def D(7) first_row_distinct[OF D(19)])
  show "Mem_getTagBySlug m g = Db_getTagBySlug d g"
    by (simp add: Mem_getTagBySlug_def Db_getTagBySlug_def D(8) first_row_distinct[OF D(21)])
  show "Mem_getSubscriberByEmail m e = Db_getSubscriberByEmail d e"
    by (simp add: Mem_getSubscriberByEmail_def Db_getSubscriberByEmail_def D(10)
        first_row_distinct[OF D(22)])
qed

text \<open>
  A read of a whole table returns the same rows; the posts come newest first on both
  sides, whatever the engine's order among posts of equal \<^verbatim>\<open>publishedAt\<close>.
\<close>

lemma lists_agree:
  assumes c: "corresponds m d"
  shows "same_posts_newest_first (Mem_getAllPosts m) (Db_getAllPosts d)"
    and "same_rows (Mem_getAllTags m) (Db_getAllTags d)"
    and "same_rows (Mem_getAllSubscribers m) (Db_getAllSubscribers d)"
proof -
  note D = correspondsD[OF c]
  show "same_posts_newest_first (Mem_getAllPosts m) (Db_getAllPosts d)"
    using D(17)
    by (simp add: same_posts_newest_first_def Mem_getAllPosts_def Db_getAllPosts_def D(7)
        sorted_Array_sort sorted_orderBy)
  show "same_rows (Mem_getAllTags m) (Db_getAllTags d)"
    by (simp add: same_rows_def Mem_getAllTags_def Db_getAllTags_def D(8))
  show "same_rows (Mem_getAllSubscribers m) (Db_getAllSubscribers d)"
    by (simp add: same_rows_def Mem_getAllSubscribers_def Db_getAllSubscribers_def D(10))
qed

lemma all_posts_same_times:
  assumes c: "corresponds m d"
  shows "map post_publishedAt (Mem_getAllPosts m) = map post_publishedAt (Db_getAllPosts d)"
proof -
  note D = correspondsD[OF c]
  have "dated (Mem_getAllPosts m)"
    using D(17) by (simp add: dated_def Mem_getAllPosts_def D(7))
  then show ?thesis
    using lists_agree(1)[OF c]
    by (auto simp: same_posts_newest_first_def intro: newest_first_same_times)
qed

lemma getFeaturedPost_agrees:
  assumes c: "corresponds m d"
  shows "featured_agree (Map_values (posts m))
           (PostOpt (Mem_getFeaturedPost m)) (PostOpt (Db_getFeaturedPost d))"
proof -
  note D = correspondsD[OF c]
  let ?xs = "Mem_getAllPosts m" and ?ys = "Db_getAllPosts d"
  have sx: "set ?xs = set (Map_values (posts m))" by (simp add: Mem_getAllPosts_def)
  have sy: "set ?ys = set (Map_values (posts m))" by (simp add: Db_getAllPosts_def D(7))
  have t: "map post_publishedAt ?xs = map post_publishedAt ?ys"
    using c by (rule all_posts_same_times)
  then have len: "length ?xs = length ?ys" by (metis length_map)
  have mf: "Mem_getFeaturedPost m = (if 0 < length ?xs then Some (?xs ! 0) else None)"
    by (simp add: Mem_getFeaturedPost_def Let_def)
  have df: "Db_getFeaturedPost d = (if 0 < length ?ys then Some (?ys ! 0) else None)"
    unfolding Db_getFeaturedPost_def Db_getAllPosts_def by (rule first_row_take_1)
  show ?thesis
  proof (cases "0 < length ?xs")
    case True
    have "post_publishedAt (?xs ! 0) = post_publishedAt (?ys ! 0)"
      using t True len by (metis nth_map)
    moreover have "?xs ! 0 \<in> set (Map_values (posts m))"
      using True sx nth_mem by blast
    moreover have "?ys ! 0 \<in> set (Map_values (posts m))"
      using True len sy nth_mem by (metis (no_types, lifting))
    ultimately show ?thesis using True len by (simp add: featured_agree_def mf df)
  next
    case False
    then show ?thesis using len by (simp add: featured_agree_def mf df)
  qed
qed

lemma post_tag_reads_agree:
  assumes c: "corresponds m d"
  shows "same_posts_newest_first (Mem_getPostsByTagId m t) (Db_getPostsByTagId d t)"
    and "same_posts_newest_first (Mem_getPostsByTagSlug m g) (Db_getPostsByTagSlug d g)"
    and "same_rows (Mem_getTagsByPostId m p) (Db_getTagsByPostId d p)"
proof -
  note D = correspondsD[OF c]
  have dp: "distinct (map (\<lambda>y. (pt_postId y, pt_tagId y)) (post_tags_table d))"
    using D(16) by (simp add: pairs_def)
  have ds: "distinct (map (\<lambda>y. (pt_tagId y, pt_postId y)) (post_tags_table d))"
    using D(16) by (simp add: distinct_swapped_pairs)
  show byid: "same_posts_newest_first (Mem_getPostsByTagId m t) (Db_getPostsByTagId d t)" for t
  proof -
    let ?sel = "filter (\<lambda>post. post_id post \<in> set (map pt_postId
                  (filter (\<lambda>pt. pt_tagId pt = t) (post_tags_table d)))) (posts_table d)"
    let ?J = "filter (\<lambda>r. pt_tagId (snd r) = t)
               (innerJoin (posts_table d) (post_tags_table d) (\<lambda>p pt. post_id p = pt_postId pt))"
    let ?rank = "posts_join_rank (row_order d)"
    have j: "map fst ?J = ?sel" using dp by (rule join_filter)
    have mem: "Mem_getPostsByTagId m t = Array_sort byPublishedAtDesc ?sel"
      by (simp add: Mem_getPostsByTagId_def Let_def D(7) D(9))
    have db: "Db_getPostsByTagId d t
                = map fst (orderBy (desc (\<lambda>r. post_publishedAt (fst r))) (arrange ?rank ?J))"
      by (simp add: Db_getPostsByTagId_def)
    have "mset (map fst (orderBy (desc (\<lambda>r. post_publishedAt (fst r))) (arrange ?rank ?J)))
            = mset (map fst ?J)"
      by simp
    then have same: "mset (Db_getPostsByTagId d t) = mset ?sel" using j db by simp
    have sm: "sorted_wrt newer_first (Array_sort byPublishedAtDesc ?sel)"
      by (rule sorted_Array_sort) (rule dated_filter[OF D(17)])
    have sd: "sorted_wrt newer_first (Db_getPostsByTagId d t)"
      unfolding db by (rule sorted_orderBy_pairs) (rule dated_join[OF D(17)])
    show ?thesis using same sm sd by (simp add: same_posts_newest_first_def mem)
  qed
  show "same_posts_newest_first (Mem_getPostsByTagSlug m g) (Db_getPostsByTagSlug d g)"
    using byid
    by (simp add: Mem_getPostsByTagSlug_def Db_getPostsByTagSlug_def reads_agree(6)[OF c]
        same_posts_newest_first_def split: option.splits)
  show "same_rows (Mem_getTagsByPostId m p) (Db_getTagsByPostId d p)"
  proof -
    let ?sel = "filter (\<lambda>tag. tag_id tag \<in> set (map pt_tagId
                  (filter (\<lambda>pt. pt_postId pt = p) (post_tags_table d)))) (tags_table d)"
    let ?J = "filter (\<lambda>r. pt_postId (snd r) = p)
               (innerJoin (tags_table d) (post_tags_table d) (\<lambda>t pt. tag_id t = pt_tagId pt))"
    have j: "map fst ?J = ?sel" using ds by (rule join_filter)
    have mem: "Mem_getTagsByPostId m p = ?sel"
      by (simp add: Mem_getTagsByPostId_def Let_def D(8) D(9))
    have "mset (map fst (arrange (tags_join_rank (row_order d)) ?J)) = mset (map fst ?J)"
      by simp
    then have "mset (Db_getTagsByPostId d p) = mset ?sel"
      using j by (simp add: Db_getTagsByPostId_def)
    then show ?thesis by (simp add: same_rows_def mem)
  qed
qed

subsection \<open>Writes\<close>

lemma corresponds_wf: "corresponds m d \<Longrightarrow> Mem_wf m"
  by (simp add: corresponds_def)

lemma settle_simps [simp]:
  "settle wrap (Inr v, s) = (wrap v, s)"
  "settle wrap (Inl e, s) = (Rejected e, s)"
  "settle wrap (resolved (v, s)) = (wrap v, s)"
  by (simp_all add: settle_def resolved_def)

lemma rejected_simps [simp]:
  "rejected (Rejected e)" "\<not> rejected (UserRow u)" "\<not> rejected (PostRow p)"
  "\<not> rejected (TagRow t)" "\<not> rejected (PostTagRow pt)" "\<not> rejected (SubscriberRow sb)"
  "\<not> rejected (PostOpt po)" "\<not> rejected (Flag b)" "\<not> rejected (Page pg)"
  by (simp_all add: rejected_def)

lemma stored_supplied [simp]: "v \<noteq> Undefined \<Longrightarrow> stored v = v"
  by (cases v) (simp_all add: stored_def)

lemma createUser_agrees:
  assumes c: "corresponds m d" and a: "admissible d (CreateUser u)"
  shows "fst (perform Mem_IStorage m (CreateUser u)) = fst (perform Db_IStorage d (CreateUser u)) \<and>
         corresponds (snd (perform Mem_IStorage m (CreateUser u)))
                     (snd (perform Db_IStorage d (CreateUser u)))"
proof -
  note D = correspondsD[OF c]
  let ?row = "\<lparr>user_id = users_id_seq d, user_username = iu_username u,
                user_password = iu_password u\<rparr>"
  have fresh: "iu_username u \<notin> set (map user_username (users_table d))"
    using a by (auto simp: admissible_def Db_IStorage_sel Db_createUser_def Let_def split: if_splits)
  have pd: "perform Db_IStorage d (CreateUser u) =
              (UserRow ?row, d\<lparr>users_id_seq := users_id_seq d + 1,
                               users_table := users_table d @ [?row]\<rparr>)"
    using fresh by (simp add: Db_IStorage_sel Db_createUser_def Let_def)
  have pm: "perform Mem_IStorage m (CreateUser u) =
              (UserRow ?row, m\<lparr>users := Map_set (users m) (users_id_seq d) ?row,
                               currentUserId := users_id_seq d + 1\<rparr>)"
    by (simp add: Mem_IStorage_sel Mem_createUser_def Let_def D(11))
  have wf: "Mem_wf (snd (perform Mem_IStorage m (CreateUser u)))"
    using corresponds_wf[OF c] by (rule Mem_wf_perform)
  have vals: "Map_values (Map_set (users m) (users_id_seq d) ?row) = users_table d @ [?row]"
    using values_set_fresh[OF D(1), of ?row] D(6) by simp
  have uniq: "distinct (map user_username (users_table d @ [?row]))"
    using D(18) fresh by simp
  show ?thesis
    using wf uniq unfolding pm pd by (simp add: corresponds_def D vals)
qed

lemma createTag_agrees:
  assumes c: "corresponds m d" and a: "admissible d (CreateTag t)"
  shows "fst (perform Mem_IStorage m (CreateTag t)) = fst (perform Db_IStorage d (CreateTag t)) \<and>
         corresponds (snd (perform Mem_IStorage m (CreateTag t)))
                     (snd (perform Db_IStorage d (CreateTag t)))"
proof -
  note D = correspondsD[OF c]
  let ?row = "\<lparr>tag_id = tags_id_seq d, tag_name = it_name t, tag_slug = it_slug t\<rparr>"
  have fresh: "it_name t \<notin> set (map tag_name (tags_table d))"
    "it_slug t \<notin> set (map tag_slug (tags_table d))"
    using a by (auto simp: admissible_def Db_IStorage_sel Db_createTag_def Let_def split: if_splits)
  have pd: "perform Db_IStorage d (CreateTag t) =
              (TagRow ?row, d\<lparr>tags_id_seq := tags_id_seq d + 1,
                              tags_table := tags_table d @ [?row]\<rparr>)"
    using fresh by (simp add: Db_IStorage_sel Db_createTag_def Let_def)
  have pm: "perform Mem_IStorage m (CreateTag t) =
              (TagRow ?row, m\<lparr>tags := Map_set (tags m) (tags_id_seq d) ?row,
                              currentTagId := tags_id_seq d + 1\<rparr>)"
    by (simp add: Mem_IStorage_sel Mem_createTag_def Let_def D(13))
  have wf: "Mem_wf (snd (perform Mem_IStorage m (CreateTag t)))"
    using corresponds_wf[OF c] by (rule Mem_wf_perform)
  have vals: "Map_values (Map_set (tags m) (tags_id_seq d) ?row) = tags_table d @ [?row]"
    using values_set_fresh[OF D(3), of ?row] D(8) by simp
  have uniq: "distinct (map tag_name (tags_table d @ [?row]))"
    "distinct (map tag_slug (tags_table d @ [?row]))"
    using D(20) D(21) fresh by simp_all
  show ?thesis
    using wf uniq unfolding pm pd by (simp add: corresponds_def D vals)
qed

lemma createSubscriber_agrees:
  assumes c: "corresponds m d" and a: "admissible d (CreateSubscriber now e)"
  shows "fst (perform Mem_IStorage m (CreateSubscriber now e))
           = fst (perform Db_IStorage d (CreateSubscriber now e)) \<and>
         corresponds (snd (perform Mem_IStorage m (CreateSubscriber now e)))
                     (snd (perform Db_IStorage d (CreateSubscriber now e)))"
proof -
  note D = correspondsD[OF c]
  let ?row = "\<lparr>sub_id = subscribers_id_seq d, sub_email = is_email e, sub_createdAt = now\<rparr>"
  have fresh: "is_email e \<notin> set (map sub_email (subscribers_table d))"
    using a
    by (auto simp: admissible_def Db_IStorage_sel Db_createSubscriber_def Let_def split: if_splits)
  have pd: "perform Db_IStorage d (CreateSubscriber now e) =
              (SubscriberRow ?row, d\<lparr>subscribers_id_seq := subscribers_id_seq d + 1,
                                     subscribers_table := subscribers_table d @ [?row]\<rparr>)"
    using fresh by (simp add: Db_IStorage_sel Db_createSubscriber_def Let_def)
  have pm: "perform Mem_IStorage m (CreateSubscriber now e) =
              (SubscriberRow ?row,
               m\<lparr>subscribers := Map_set (subscribers m) (subscribers_id_seq d) ?row,
                 currentSubscriberId := subscribers_id_seq d + 1\<rparr>)"
    by (simp add: Mem_IStorage_sel Mem_createSubscriber_def Let_def D(15))
  have wf: "Mem_wf (snd (perform Mem_IStorage m (CreateSubscriber now e)))"
    using corresponds_wf[OF c] by (rule Mem_wf_perform)
  have vals: "Map_values (Map_set (subscribers m) (subscribers_id_seq d) ?row)
                = subscribers_table d @ [?row]"
    using values_set_fresh[OF D(5), of ?row] D(10) by simp
  have uniq: "distinct (map sub_email (subscribers_table d @ [?row]))"
    using D(22) fresh by simp
  show ?thesis
    using wf uniq unfolding pm pd by (simp add: corresponds_def D vals)
qed

lemma createPost_agrees:
  assumes c: "corresponds m d" and a: "admissible d (CreatePost now p)"
  shows "fst (perform Mem_IStorage m (CreatePost now p))
           = fst (perform Db_IStorage d (CreatePost now p)) \<and>
         corresponds (snd (perform Mem_IStorage m (CreatePost now p)))
                     (snd (perform Db_IStorage d (CreatePost now p)))"
proof -
  note D = correspondsD[OF c]
  let ?row = "\<lparr>post_id = posts_id_seq d, post_slug = ip_slug p, post_title = ip_title p,
                post_excerpt = ip_excerpt p, post_content = ip_content p,
                post_coverImage = ip_coverImage p, post_publishedAt = ip_publishedAt p,
                post_readingTime = ip_readingTime p, post_authorId = ip_authorId p\<rparr>"
  obtain t where t: "ip_publishedAt p = Some t"
    using a by (auto simp: admissible_def)
  have given: "ip_coverImage p \<noteq> Undefined" "ip_authorId p \<noteq> Undefined"
    using a by (auto simp: admissible_def)
  have ok: "\<not> refused_timestamp (ip_publishedAt p)"
    "ip_slug p \<notin> set (map post_slug (posts_table d))" "author_known d (ip_authorId p)"
    using a by (auto simp: admissible_def Db_IStorage_sel Db_createPost_def Let_def split: if_splits)
  have pd: "perform Db_IStorage d (CreatePost now p) =
              (PostRow ?row, d\<lparr>posts_id_seq := posts_id_seq d + 1,
                               posts_table := posts_table d @ [?row]\<rparr>)"
    using ok t given by (simp add: Db_IStorage_sel Db_createPost_def Let_def)
  have pm: "perform Mem_IStorage m (CreatePost now p) =
              (PostRow ?row, m\<lparr>posts := Map_set (posts m) (posts_id_seq d) ?row,
                               currentPostId := posts_id_seq d + 1\<rparr>)"
    by (simp add: Mem_IStorage_sel Mem_createPost_def Let_def D(12))
  have wf: "Mem_wf (snd (perform Mem_IStorage m (CreatePost now p)))"
    using corresponds_wf[OF c] by (rule Mem_wf_perform)
  have vals: "Map_values (Map_set (posts m) (posts_id_seq d) ?row) = posts_table d @ [?row]"
    using values_set_fresh[OF D(2), of ?row] D(7) by simp
  have dated': "dated (posts_table d @ [?row])"
    using D(17) t by (simp add: dated_def)
  have uniq: "distinct (map post_slug (posts_table d @ [?row]))"
    using D(19) ok(2) by simp
  show ?thesis
    using wf dated' uniq unfolding pm pd by (simp add: corresponds_def D vals)
qed

lemma addTagToPost_agrees:
  assumes c: "corresponds m d" and a: "admissible d (AddTagToPost pt)"
  shows "fst (perform Mem_IStorage m (AddTagToPost pt))
           = fst (perform Db_IStorage d (AddTagToPost pt)) \<and>
         corresponds (snd (perform Mem_IStorage m (AddTagToPost pt)))
                     (snd (perform Db_IStorage d (AddTagToPost pt)))"
proof -
  note D = correspondsD[OF c]
  let ?row = "\<lparr>pt_id = post_tags_id_seq d, pt_postId = ipt_postId pt, pt_tagId = ipt_tagId pt\<rparr>"
  have new: "(ipt_postId pt, ipt_tagId pt) \<notin> set (pairs (post_tags_table d))"
    using a by (simp add: admissible_def)
  have ok: "ipt_postId pt \<in> set (map post_id (posts_table d))"
    "ipt_tagId pt \<in> set (map tag_id (tags_table d))"
    using a
    by (auto simp: admissible_def Db_IStorage_sel Db_addTagToPost_def Let_def split: if_splits)
  have pd: "perform Db_IStorage d (AddTagToPost pt) =
              (PostTagRow ?row, d\<lparr>post_tags_id_seq := post_tags_id_seq d + 1,
                                  post_tags_table := post_tags_table d @ [?row]\<rparr>)"
    using ok by (simp add: Db_IStorage_sel Db_addTagToPost_def Let_def)
  have pm: "perform Mem_IStorage m (AddTagToPost pt) =
              (PostTagRow ?row, m\<lparr>postTags := Map_set (postTags m) (post_tags_id_seq d) ?row,
                                  currentPostTagId := post_tags_id_seq d + 1\<rparr>)"
    by (simp add: Mem_IStorage_sel Mem_addTagToPost_def Let_def D(14))
  have wf: "Mem_wf (snd (perform Mem_IStorage m (AddTagToPost pt)))"
    using corresponds_wf[OF c] by (rule Mem_wf_perform)
  have vals: "Map_values (Map_set (postTags m) (post_tags_id_seq d) ?row)
                = post_tags_table d @ [?row]"
    using values_set_fresh[OF D(4), of ?row] D(9) by simp
  have dist: "distinct (pairs (post_tags_table d @ [?row]))"
    using D(16) new by (simp add: pairs_def)
  show ?thesis
    using wf dist unfolding pm pd by (simp add: corresponds_def D vals)
qed

lemma getPaginatedPosts_agrees:
  assumes c: "corresponds m d" and a: "admissible d (GetPaginatedPosts page limit)"
  shows "pages_agree (Map_values (posts m))
           (fst (perform Mem_IStorage m (GetPaginatedPosts page limit)))
           (fst (perform Db_IStorage d (GetPaginatedPosts page limit))) \<and>
         corresponds (snd (perform Mem_IStorage m (GetPaginatedPosts page limit)))
                     (snd (perform Db_IStorage d (GetPaginatedPosts page limit)))"
proof -
  note D = correspondsD[OF c]
  let ?xs = "Mem_getAllPosts m" and ?ys = "Db_getAllPosts d"
  let ?n = "nat limit" and ?k = "nat ((page - 1) * limit)"
  have ok: "0 \<le> limit" "0 \<le> (page - 1) * limit"
    using a
    by (auto simp: admissible_def Db_IStorage_sel Db_getPaginatedPosts_def limit_offset_def
        Let_def settle_def split: if_splits)
  have nn: "\<not> limit < 0" "\<not> (page - 1) * limit < 0" using ok by auto
  have le: "(page - 1) * limit \<le> page * limit" using ok(1) by (simp add: algebra_simps)
  have w: "page * limit - (page - 1) * limit = limit" by (simp add: algebra_simps)
  have sx: "set ?xs = set (Map_values (posts m))" by (simp add: Mem_getAllPosts_def)
  have sy: "set ?ys = set (Map_values (posts m))" by (simp add: Db_getAllPosts_def D(7))
  have lx: "length ?xs = length (posts_table d)" by (simp add: Mem_getAllPosts_def D(7))
  have sl: "Array_slice ?xs ((page - 1) * limit) (page * limit) = take ?n (drop ?k ?xs)"
    using Array_slice_take_drop[OF ok(2) le, of ?xs] w by simp
  have pm: "Mem_getPaginatedPosts m page limit =
              \<lparr>pg_posts = take ?n (drop ?k ?xs), pg_total = length (posts_table d)\<rparr>"
    using sl lx by (simp add: Mem_getPaginatedPosts_def Let_def)
  have pd: "Db_getPaginatedPosts d page limit =
              Inr \<lparr>pg_posts = take ?n (drop ?k ?ys), pg_total = length (posts_table d)\<rparr>"
    using nn by (simp add: Db_getPaginatedPosts_def limit_offset_def Let_def Db_getAllPosts_def)
  have "map post_publishedAt ?xs = map post_publishedAt ?ys"
    using c by (rule all_posts_same_times)
  then have times: "map post_publishedAt (take ?n (drop ?k ?xs))
                      = map post_publishedAt (take ?n (drop ?k ?ys))"
    by (metis take_map drop_map)
  have win: "set (take ?n (drop ?k zs)) \<subseteq> set zs" for zs :: "Post list"
    using set_take_subset[of ?n "drop ?k zs"] set_drop_subset[of ?k zs] by blast
  have inx: "set (take ?n (drop ?k ?xs)) \<subseteq> set (Map_values (posts m))"
    using sx win[of ?xs] by simp
  have iny: "set (take ?n (drop ?k ?ys)) \<subseteq> set (Map_values (posts m))"
    using sy win[of ?ys] by simp
  show ?thesis
    using c times inx iny
    by (simp add: Mem_IStorage_sel Db_IStorage_sel pm pd pages_agree_def same_times_def)
qed

lemma first_row_Some_mem: "first_row (filter P xs) = Some x \<Longrightarrow> x \<in> set xs \<and> P x"
  by (simp add: first_row_filter find_Some_mem)

lemma dated_spread:
  assumes "post_publishedAt post \<noteq> None"
  shows "post_publishedAt (spread_updates post u) \<noteq> None"
  using assms by (simp add: spread_updates_def split: option.splits)

text \<open>
  Rewriting the one row of an id keeps a unique column unique when no other row has the
  new value.
\<close>

lemma distinct_rewrite:
  assumes "distinct (map f xs)" and "distinct (map g xs)"
    and "g v \<notin> set (map g (filter (\<lambda>x. f x \<noteq> k) xs))"
  shows "distinct (map g (map (\<lambda>x. if f x = k then v else x) xs))"
  using assms
proof (induction xs)
  case Nil
  then show ?case by simp
next
  case (Cons y ys)
  show ?case
  proof (cases "f y = k")
    case True
    then have other: "\<forall>x \<in> set ys. f x \<noteq> k" using Cons.prems(1) by (auto simp: image_iff)
    then have same: "map (\<lambda>x. if f x = k then v else x) ys = ys" by (simp add: map_idI)
    have keep: "filter (\<lambda>x. f x \<noteq> k) ys = ys" using other by (simp add: filter_id_conv)
    have "g v \<notin> set (map g ys)" using Cons.prems(3) True keep by simp
    then show ?thesis using True same Cons.prems(2) by simp
  next
    case False
    have ih: "distinct (map g (map (\<lambda>x. if f x = k then v else x) ys))"
      using Cons by (auto split: if_splits)
    have "g y \<noteq> g v" using Cons.prems(3) False by auto
    moreover have "g y \<notin> set (map g ys)" using Cons.prems(2) by simp
    ultimately have "g y \<notin> set (map g (map (\<lambda>x. if f x = k then v else x) ys))"
      by (auto simp: image_iff)
    then show ?thesis using False ih by simp
  qed
qed

lemma updatePost_agrees:
  assumes c: "corresponds m d" and a: "admissible d (UpdatePost i u)"
  shows "fst (perform Mem_IStorage m (UpdatePost i u))
           = fst (perform Db_IStorage d (UpdatePost i u)) \<and>
         corresponds (snd (perform Mem_IStorage m (UpdatePost i u)))
                     (snd (perform Db_IStorage d (UpdatePost i u)))"
proof -
  note D = correspondsD[OF c]
  have some: "\<not> no_values u" "\<not> refused_timestamp (pu_publishedAt u)"
    using a by (auto simp: admissible_def Db_IStorage_sel Db_updatePost_def split: if_splits)
  have look: "Map_get (posts m) i = first_row (filter (\<lambda>p. post_id p = i) (posts_table d))"
    by (rule lookup_in_table[OF D(2) D(7)])
  show ?thesis
  proof (cases "first_row (filter (\<lambda>p. post_id p = i) (posts_table d))")
    case None
    have pd: "perform Db_IStorage d (UpdatePost i u) = (PostOpt None, d)"
      using some None by (simp add: Db_IStorage_sel Db_updatePost_def)
    have pm: "perform Mem_IStorage m (UpdatePost i u) = (PostOpt None, m)"
      using None look by (simp add: Mem_IStorage_sel Mem_updatePost_def)
    show ?thesis using c unfolding pm pd by simp
  next
    case (Some post)
    let ?upd = "spread_updates post u"
    let ?tbl = "map (\<lambda>p. if post_id p = i then ?upd else p) (posts_table d)"
    have mem: "post \<in> set (posts_table d)" using first_row_Some_mem[OF Some] by simp
    have ok: "post_slug ?upd \<notin> set (map post_slug (filter (\<lambda>p. post_id p \<noteq> i) (posts_table d)))"
      "author_known d (post_authorId ?upd)"
      using a some Some
      by (auto simp: admissible_def Db_IStorage_sel Db_updatePost_def Let_def split: if_splits)
    have pd: "perform Db_IStorage d (UpdatePost i u) =
                (PostOpt (Some ?upd), d\<lparr>posts_table := ?tbl\<rparr>)"
      using some Some ok by (simp add: Db_IStorage_sel Db_updatePost_def Let_def)
    have pm: "perform Mem_IStorage m (UpdatePost i u) =
                (PostOpt (Some ?upd), m\<lparr>posts := Map_set (posts m) i ?upd\<rparr>)"
      using Some look by (simp add: Mem_IStorage_sel Mem_updatePost_def Let_def)
    have key: "i \<in> set (map fst (posts m))"
      using Some look map_of_in[of "posts m" i post] by (simp add: Map_get_def)
    have vals: "Map_values (Map_set (posts m) i ?upd) = ?tbl"
      using values_set_present[OF D(2) key, of ?upd] D(7) by simp
    have wf: "Mem_wf (snd (perform Mem_IStorage m (UpdatePost i u)))"
      using corresponds_wf[OF c] by (rule Mem_wf_perform)
    have "post_publishedAt ?upd \<noteq> None"
      using D(17) mem by (intro dated_spread) (simp add: dated_def)
    then have dated': "dated ?tbl"
      using D(17) by (auto simp: dated_def)
    have uniq: "distinct (map post_slug ?tbl)"
      using distinct_ids[OF D(2) D(7)] D(19) ok(1) by (rule distinct_rewrite)
    show ?thesis
      using wf dated' uniq unfolding pm pd by (simp add: corresponds_def D vals)
  qed
qed

lemma deletePost_agrees:
  assumes c: "corresponds m d" and a: "admissible d (DeletePost i)"
  shows "fst (perform Mem_IStorage m (DeletePost i))
           = fst (perform Db_IStorage d (DeletePost i)) \<and>
         corresponds (snd (perform Mem_IStorage m (DeletePost i)))
                     (snd (perform Db_IStorage d (DeletePost i)))"
proof -
  note D = correspondsD[OF c]
  have untagged: "i \<notin> set (map pt_postId (post_tags_table d))"
    using a by (simp add: admissible_def)
  then have keep: "filter (\<lambda>pt. pt_postId pt \<noteq> i) (post_tags_table d) = post_tags_table d"
    by (auto intro: filter_True)
  have flag: "(0 < length (filter (\<lambda>p. post_id p = i) (posts_table d)))
                = (i \<in> set (map post_id (posts_table d)))"
    by (auto simp: filter_empty_conv)
  have pd: "perform Db_IStorage d (DeletePost i) =
              (Flag (i \<in> set (map post_id (posts_table d))),
               d\<lparr>post_tags_table := post_tags_table d,
                 posts_table := filter (\<lambda>p. post_id p \<noteq> i) (posts_table d)\<rparr>)"
    using flag by (simp add: Db_IStorage_sel Db_deletePost_def Let_def keep resolved_def settle_def)
  have pm: "perform Mem_IStorage m (DeletePost i) =
              (Flag (i \<in> set (map post_id (posts_table d))),
               m\<lparr>posts := snd (Map_delete (posts m) i)\<rparr>)"
    using values_delete(1)[OF D(2), of i] D(7)
    by (simp add: Mem_IStorage_sel Mem_deletePost_def case_prod_beta resolved_def settle_def)
  have vals: "Map_values (snd (Map_delete (posts m) i))
                = filter (\<lambda>p. post_id p \<noteq> i) (posts_table d)"
    using values_delete(2)[OF D(2), of i] D(7) by simp
  have wf: "Mem_wf (snd (perform Mem_IStorage m (DeletePost i)))"
    using corresponds_wf[OF c] by (rule Mem_wf_perform)
  have dated': "dated (filter (\<lambda>p. post_id p \<noteq> i) (posts_table d))"
    using D(17) by (rule dated_filter)
  have uniq: "distinct (map post_slug (filter (\<lambda>p. post_id p \<noteq> i) (posts_table d)))"
    using D(19) by (rule distinct_map_filter)
  show ?thesis
    using wf dated' uniq unfolding pm pd by (simp add: corresponds_def D vals)
qed

lemma removeTagFromPost_agrees:
  assumes c: "corresponds m d"
  shows "fst (perform Mem_IStorage m (RemoveTagFromPost p t))
           = fst (perform Db_IStorage d (RemoveTagFromPost p t)) \<and>
         corresponds (snd (perform Mem_IStorage m (RemoveTagFromPost p t)))
                     (snd (perform Db_IStorage d (RemoveTagFromPost p t)))"
proof -
  note D = correspondsD[OF c]
  let ?pair = "\<lambda>pt. (pt_postId pt, pt_tagId pt)"
  let ?hit = "\<lambda>pt. pt_postId pt = p \<and> pt_tagId pt = t"
  let ?pts = "post_tags_table d"
  have dp: "distinct (map ?pair ?pts)" using D(16) by (simp add: pairs_def)
  have hit_pair: "filter ?hit ?pts = filter (\<lambda>pt. ?pair pt = (p, t)) ?pts"
    by (intro filter_cong) auto
  have one: "filter ?hit ?pts = [] \<or> (\<exists>e. filter ?hit ?pts = [e])"
    unfolding hit_pair using dp by (rule one_hit)
  have fnd: "find ?hit (Map_values (postTags m)) = first_row (filter ?hit ?pts)"
    by (simp add: D(9) first_row_filter)
  have wf: "Mem_wf (snd (perform Mem_IStorage m (RemoveTagFromPost p t)))"
    using corresponds_wf[OF c] by (rule Mem_wf_perform)
  from one show ?thesis
  proof
    assume none: "filter ?hit ?pts = []"
    then have keep: "filter (\<lambda>pt. \<not> ?hit pt) ?pts = ?pts"
      by (auto simp: filter_empty_conv intro!: filter_True)
    have pd: "perform Db_IStorage d (RemoveTagFromPost p t) =
                (Flag False, d\<lparr>post_tags_table := ?pts\<rparr>)"
      using none keep
      by (simp add: Db_IStorage_sel Db_removeTagFromPost_def Let_def resolved_def settle_def)
    have pm: "perform Mem_IStorage m (RemoveTagFromPost p t) = (Flag False, m)"
      using none fnd
      by (simp add: Mem_IStorage_sel Mem_removeTagFromPost_def first_row_def resolved_def settle_def)
    show ?thesis using c unfolding pm pd by (simp add: corresponds_def)
  next
    assume "\<exists>e. filter ?hit ?pts = [e]"
    then obtain e where e: "filter ?hit ?pts = [e]" by blast
    have "e \<in> set (filter ?hit ?pts)" using e by simp
    then have ein: "e \<in> set ?pts" and ehit: "?hit e" by simp_all
    have "filter (\<lambda>pt. \<not> ?hit pt) ?pts = filter (\<lambda>pt. ?pair pt \<noteq> ?pair e) ?pts"
      using ehit by (intro filter_cong) auto
    also have "\<dots> = filter (\<lambda>pt. pt \<noteq> e) ?pts"
      using dp ein by (rule filter_other_key)
    finally have rest_d: "filter (\<lambda>pt. \<not> ?hit pt) ?pts = filter (\<lambda>pt. pt \<noteq> e) ?pts" .
    have did: "distinct (map pt_id ?pts)"
      using D(4) keys_ids[OF D(4)] D(9) by (simp add: entries_ok_def)
    have rest_m: "filter (\<lambda>pt. pt_id pt \<noteq> pt_id e) ?pts = filter (\<lambda>pt. pt \<noteq> e) ?pts"
      using did ein by (rule filter_other_key)
    have pd: "perform Db_IStorage d (RemoveTagFromPost p t) =
                (Flag True, d\<lparr>post_tags_table := filter (\<lambda>pt. pt \<noteq> e) ?pts\<rparr>)"
      using e rest_d
      by (simp add: Db_IStorage_sel Db_removeTagFromPost_def Let_def resolved_def settle_def)
    have f: "find ?hit (Map_values (postTags m)) = Some e"
      using fnd e by (simp add: first_row_def)
    have del1: "fst (Map_delete (postTags m) (pt_id e))"
      using values_delete(1)[OF D(4), of "pt_id e"] D(9) ein by simp
    have pm: "perform Mem_IStorage m (RemoveTagFromPost p t) =
                (Flag True, m\<lparr>postTags := snd (Map_delete (postTags m) (pt_id e))\<rparr>)"
      using f del1
      by (simp add: Mem_IStorage_sel Mem_removeTagFromPost_def case_prod_beta resolved_def
          settle_def)
    have vals: "Map_values (snd (Map_delete (postTags m) (pt_id e)))
                  = filter (\<lambda>pt. pt \<noteq> e) ?pts"
      using values_delete(2)[OF D(4), of "pt_id e"] D(9) rest_m by simp
    have dist: "distinct (pairs (filter (\<lambda>pt. pt \<noteq> e) ?pts))"
      using D(16) by (simp add: pairs_def distinct_map_filter)
    show ?thesis
      using wf dist unfolding pm pd by (simp add: corresponds_def D vals)
  qed
qed

subsection \<open>Sequences of calls\<close>

lemma call_agrees:
  assumes c: "corresponds m d" and a: "admissible d call"
  shows "agree m call (fst (perform Mem_IStorage m call)) (fst (perform Db_IStorage d call)) \<and>
         corresponds (snd (perform Mem_IStorage m call)) (snd (perform Db_IStorage d call))"
proof (cases call)
  case (CreateUser u)
  then show ?thesis using createUser_agrees[OF c] a by simp
next
  case (CreatePost now p)
  then show ?thesis using createPost_agrees[OF c] a by simp
next
  case (UpdatePost i u)
  then show ?thesis using updatePost_agrees[OF c] a by simp
next
  case (DeletePost i)
  then show ?thesis using deletePost_agrees[OF c] a by simp
next
  case (GetPaginatedPosts page limit)
  then show ?thesis using getPaginatedPosts_agrees[OF c] a by simp
next
  case (CreateTag t)
  then show ?thesis using createTag_agrees[OF c] a by simp
next
  case (AddTagToPost pt)
  then show ?thesis using addTagToPost_agrees[OF c] a by simp
next
  case (RemoveTagFromPost p t)
  then show ?thesis using removeTagFromPost_agrees[OF c] by simp
next
  case (CreateSubscriber now e)
  then show ?thesis using createSubscriber_agrees[OF c] a by simp
next
  case GetFeaturedPost
  then show ?thesis
    using c getFeaturedPost_agrees[OF c] by (simp add: Mem_IStorage_sel Db_IStorage_sel)
qed (use c in \<open>simp_all add: Mem_IStorage_sel Db_IStorage_sel reads_agree[OF c]
      lists_agree[OF c] post_tag_reads_agree[OF c] posts_agree_def rows_agree_def\<close>)

text \<open>
  C3, as amended. Start the in-memory store and the database in corresponding states
  (the same rows, the same next ids, no post-tag pair and no value of a unique column
  stored twice, every post with its \<^verbatim>\<open>publishedAt\<close>) and apply any sequence of calls of the
  interface in which every call has plain arguments and is accepted by the database (no
  unique or foreign-key violation, no update without values, no timestamp outside the
  years 1 to 9999, no negative \<^verbatim>\<open>LIMIT\<close> or \<^verbatim>\<open>OFFSET\<close>), every \<^verbatim>\<open>createPost\<close> supplies
  \<^verbatim>\<open>publishedAt\<close>, \<^verbatim>\<open>coverImage\<close> and \<^verbatim>\<open>authorId\<close>, no \<^verbatim>\<open>addTagToPost\<close> repeats a pair the
  post already has, and no \<^verbatim>\<open>deletePost\<close> deletes a post that has tags. Then, whatever
  order of rows the engine chooses at each call, the results of the two stores agree call
  by call, rows being compared field by field: every write
  has the same outcome and returns the same row, every read of one row by id or by a
  unique column returns the same optional row, the lists of tags and of subscribers
  hold the same rows (in an order that may differ), the lists of posts hold the same posts
  and are both newest first (so they differ at most in the order of posts of equal
  \<^verbatim>\<open>publishedAt\<close>), a page of posts has the same total and position by position stored
  posts of the same \<^verbatim>\<open>publishedAt\<close>, and the featured posts are stored posts of the same
  \<^verbatim>\<open>publishedAt\<close>. The two stores end in corresponding states.
\<close>

theorem stores_agree_up_to_row_order:
  assumes "corresponds m d" and "admissible_run d calls"
  shows "agree_all m (map snd calls)
           (fst (run Mem_IStorage m (map snd calls))) (fst (Db_run d calls)) \<and>
         corresponds (snd (run Mem_IStorage m (map snd calls))) (snd (Db_run d calls))"
  using assms
proof (induction calls arbitrary: m d)
  case Nil
  then show ?case by simp
next
  case (Cons pc calls)
  let ?d = "d\<lparr>row_order := fst pc\<rparr>"
  let ?m' = "snd (perform Mem_IStorage m (snd pc))"
  let ?d' = "snd (perform Db_IStorage ?d (snd pc))"
  have c0: "corresponds m ?d" using Cons.prems(1) by simp
  have a: "admissible ?d (snd pc)" and rest: "admissible_run ?d' calls"
    using Cons.prems(2) by simp_all
  have step: "agree m (snd pc) (fst (perform Mem_IStorage m (snd pc)))
                (fst (perform Db_IStorage ?d (snd pc)))"
    and c': "corresponds ?m' ?d'"
    using call_agrees[OF c0 a] by simp_all
  have "agree_all ?m' (map snd calls)
          (fst (run Mem_IStorage ?m' (map snd calls))) (fst (Db_run ?d' calls)) \<and>
        corresponds (snd (run Mem_IStorage ?m' (map snd calls))) (snd (Db_run ?d' calls))"
    using c' rest by (rule Cons.IH)
  then show ?case using step by (simp add: Let_def)
qed

theorem stores_agree_up_to_row_order_witness:
  "corresponds MemStorage_new Database_empty \<and>
   admissible_run Database_empty demo_session \<and>
   length (fst (Db_run Database_empty demo_session)) = 36 \<and>
   fst (run Mem_IStorage MemStorage_new (map snd demo_session))
     \<noteq> fst (Db_run Database_empty demo_session) \<and>
   agree_all MemStorage_new (map snd demo_session)
     (fst (run Mem_IStorage MemStorage_new (map snd demo_session)))
     (fst (Db_run Database_empty demo_session))"
proof -
  have c: "corresponds MemStorage_new Database_empty" by code_simp
  have a: "admissible_run Database_empty demo_session" by code_simp
  have l: "length (fst (Db_run Database_empty demo_session)) = 36" by code_simp
  have n: "fst (run Mem_IStorage MemStorage_new (map snd demo_session))
             \<noteq> fst (Db_run Database_empty demo_session)" by code_simp
  show ?thesis
    using c a l n stores_agree_up_to_row_order[OF c a] by simp
qed

text \<open>
  The claim as stated, for every sequence of calls, fails: the in-memory store does not
  check that a post-tag row refers to a post and a tag, and the database does. On the
  empty stores \<^verbatim>\<open>addTagToPost({postId: 7, tagId: 9})\<close> returns a row from the in-memory store
  and is rejected by the database.
\<close>

theorem stores_agree_up_to_row_order_counterexample:
  "corresponds MemStorage_new Database_empty \<and>
   fst (perform Mem_IStorage MemStorage_new (AddTagToPost \<lparr>ipt_postId = 7, ipt_tagId = 9\<rparr>))
     = PostTagRow \<lparr>pt_id = 1, pt_postId = 7, pt_tagId = 9\<rparr> \<and>
   fst (perform Db_IStorage Database_empty (AddTagToPost \<lparr>ipt_postId = 7, ipt_tagId = 9\<rparr>))
     = Rejected (ForeignKeyViolation ''post_tags_post_id_posts_id_fk'')"
  by code_simp

end
